theory Spec2Isabelle
  imports Complex_Main "HOL-Library.Code_Target_Nat"
begin

section \<open>Characters and the string primitives of Python\<close>

text \<open>
  A Python \<open>str\<close> is a sequence of code points. The model uses \<open>string\<close>, one
  \<open>char\<close> per code point, so it covers the code points U+0000 to U+00FF. The three
  tables below are the ones CPython uses on that range: \<open>is_word\<close> is the class
  \<open>\w\<close> of \<open>re\<close> on \<open>str\<close> patterns (alphanumeric or underscore), \<open>is_space\<close> is
  the class \<open>\s\<close>, which is also the whitespace of \<open>str.split()\<close> and
  \<open>str.strip()\<close>, and \<open>lower_char\<close> is \<open>str.lower()\<close> on one character. On
  this range \<open>str.lower()\<close> turns one character into one character; beyond it, it
  need not (it turns U+0130 into two), so what is proved of \<open>lower\<close> here is proved
  for names within the range.
\<close>

definition is_word :: "char \<Rightarrow> bool" where
  "is_word c = (let n = (of_char c :: nat) in
     (48 \<le> n \<and> n \<le> 57) \<or> (65 \<le> n \<and> n \<le> 90) \<or> n = 95 \<or> (97 \<le> n \<and> n \<le> 122) \<or>
     n = 170 \<or> n = 178 \<or> n = 179 \<or> n = 181 \<or> n = 185 \<or> n = 186 \<or>
     (188 \<le> n \<and> n \<le> 190) \<or> (192 \<le> n \<and> n \<le> 214) \<or> (216 \<le> n \<and> n \<le> 246) \<or> 248 \<le> n)"

definition is_space :: "char \<Rightarrow> bool" where
  "is_space c = (let n = (of_char c :: nat) in
     (9 \<le> n \<and> n \<le> 13) \<or> (28 \<le> n \<and> n \<le> 32) \<or> n = 133 \<or> n = 160)"

definition lower_char :: "char \<Rightarrow> char" where
  "lower_char c = (let n = (of_char c :: nat) in
     if (65 \<le> n \<and> n \<le> 90) \<or> (192 \<le> n \<and> n \<le> 214) \<or> (216 \<le> n \<and> n \<le> 222)
     then char_of (n + 32) else c)"

text \<open>\<open>s.lower()\<close>\<close>

definition lower :: "string \<Rightarrow> string" where
  "lower s = map lower_char s"

text \<open>\<open>s.strip()\<close>: leading and trailing whitespace removed.\<close>

definition strip :: "string \<Rightarrow> string" where
  "strip s = rev (dropWhile is_space (rev (dropWhile is_space s)))"

text \<open>\<open>s.split()\<close>: the maximal runs of non-whitespace characters, in order.\<close>

fun str_split :: "string \<Rightarrow> string \<Rightarrow> string list" where
  "str_split w [] = (if w = [] then [] else [w])"
| "str_split w (c # cs) =
     (if is_space c then (if w = [] then str_split [] cs else w # str_split [] cs)
      else str_split (w @ [c]) cs)"

text \<open>\<open>x in y\<close> on strings: \<open>x\<close> occurs in \<open>y\<close> as a contiguous substring.\<close>

fun substring_in :: "string \<Rightarrow> string \<Rightarrow> bool" where
  "substring_in x [] = (x = [])"
| "substring_in x (c # cs) = (take (length x) (c # cs) = x \<or> substring_in x cs)"

text \<open>\<open>s.endswith(e)\<close>\<close>

definition endswith :: "string \<Rightarrow> string \<Rightarrow> bool" where
  "endswith s e = (length e \<le> length s \<and> drop (length s - length e) s = e)"

text \<open>
  \<open>s.replace(old, new)\<close> for a non-empty \<open>old\<close>: the occurrences of \<open>old\<close> are replaced
  from left to right, without overlap.
\<close>

fun replace :: "string \<Rightarrow> string \<Rightarrow> string \<Rightarrow> string" where
  "replace old new [] = []"
| "replace old new (c # cs) =
     (if old \<noteq> [] \<and> take (length old) (c # cs) = old
      then new @ replace old new (drop (length old - 1) cs)
      else c # replace old new cs)"

section \<open>The regular-expression substitutions\<close>

text \<open>
  Each \<open>re.sub\<close> of the sources is a left-to-right scan: at a position where the
  pattern matches, the replacement is emitted and the scan goes on after the match;
  elsewhere the character is copied. None of the patterns matches the empty string.
\<close>

text \<open>
  \<open>re.sub(r'\.(e1|e2|...)$', '', name, flags=re.IGNORECASE)\<close>. Without
  \<open>re.MULTILINE\<close>, \<open>$\<close> matches at the end of the string and before a newline that is
  the last character; in the second case the newline is not part of the match and stays.
\<close>

fun sub_extension :: "string list \<Rightarrow> string \<Rightarrow> string" where
  "sub_extension exts [] = []"
| "sub_extension exts (c # cs) =
     (if c = CHR ''.'' \<and> lower cs \<in> set exts then []
      else if c = CHR ''.'' \<and> cs \<noteq> [] \<and> last cs = CHR 0x0A \<and> lower (butlast cs) \<in> set exts
      then [CHR 0x0A]
      else c # sub_extension exts cs)"

text \<open>
  \<open>re.sub(r'\[.*?\]', repl, name)\<close> and \<open>re.sub(r'[\[\(].*?[\]\)]', repl, name)\<close>:
  \<open>opn\<close> and \<open>cl\<close> are the opening and the closing character class. \<open>.\<close> does not
  match a newline and \<open>*?\<close> is lazy, so a match runs from an opening character to the
  first closing character after it, provided no newline comes before that one;
  \<open>close_at cl cs\<close> is the number of characters of \<open>cs\<close> this takes.
\<close>

fun close_at :: "(char \<Rightarrow> bool) \<Rightarrow> string \<Rightarrow> nat option" where
  "close_at cl [] = None"
| "close_at cl (c # cs) =
     (if cl c then Some 1 else if c = CHR 0x0A then None else map_option Suc (close_at cl cs))"

fun sub_brackets :: "(char \<Rightarrow> bool) \<Rightarrow> (char \<Rightarrow> bool) \<Rightarrow> string \<Rightarrow> string \<Rightarrow> string" where
  "sub_brackets opn cl repl [] = []"
| "sub_brackets opn cl repl (c # cs) =
     (if opn c then
        (case close_at cl cs of
           Some n \<Rightarrow> repl @ sub_brackets opn cl repl (drop n cs)
         | None \<Rightarrow> c # sub_brackets opn cl repl cs)
      else c # sub_brackets opn cl repl cs)"

text \<open>
  \<open>\b\<close>: the characters before and after the position (\<open>None\<close> at either end of the
  string) differ in being word characters.
\<close>

definition word_boundary :: "char option \<Rightarrow> char option \<Rightarrow> bool" where
  "word_boundary p n =
     ((case p of None \<Rightarrow> False | Some c \<Rightarrow> is_word c) \<noteq> (case n of None \<Rightarrow> False | Some c \<Rightarrow> is_word c))"

definition head_opt :: "string \<Rightarrow> char option" where
  "head_opt s = (case s of [] \<Rightarrow> None | c # _ \<Rightarrow> Some c)"

text \<open>
  The alternation \<open>(t1|t2|...)\b\<close> at the start of \<open>s\<close>, under \<open>re.IGNORECASE\<close>: the
  first term, in the order of the list, that equals the next characters up to case and
  is followed by a word boundary. The terms are lower-case.
\<close>

fun first_term :: "string list \<Rightarrow> string \<Rightarrow> string option" where
  "first_term [] s = None"
| "first_term (t # ts) s =
     (if t \<noteq> [] \<and> length t \<le> length s \<and> lower (take (length t) s) = t \<and>
         word_boundary (Some (s ! (length t - 1))) (head_opt (drop (length t) s))
      then Some t else first_term ts s)"

text \<open>
  \<open>re.sub(r'\b(t1|t2|...)\b', repl, name, flags=re.IGNORECASE)\<close>; \<open>prev\<close> is the
  character before the current position.
\<close>

fun sub_terms :: "string list \<Rightarrow> string \<Rightarrow> char option \<Rightarrow> string \<Rightarrow> string" where
  "sub_terms ts repl prev [] = []"
| "sub_terms ts repl prev (c # cs) =
     (if word_boundary prev (Some c) then
        (case first_term ts (c # cs) of
           Some t \<Rightarrow> repl @ sub_terms ts repl (Some ((c # cs) ! (length t - 1))) (drop (length t - 1) cs)
         | None \<Rightarrow> c # sub_terms ts repl (Some c) cs)
      else c # sub_terms ts repl (Some c) cs)"

text \<open>\<open>re.sub(r'[^\w\s]', ' ', name)\<close>\<close>

definition sub_nonword :: "string \<Rightarrow> string" where
  "sub_nonword s = map (\<lambda>c. if is_word c \<or> is_space c then c else CHR '' '') s"

text \<open>
  \<open>re.sub(r'\s+', repl, name)\<close>: every maximal run of whitespace becomes \<open>repl\<close>;
  \<open>in_run\<close> says that the previous character was whitespace.
\<close>

fun sub_spaces :: "string \<Rightarrow> bool \<Rightarrow> string \<Rightarrow> string" where
  "sub_spaces repl in_run [] = []"
| "sub_spaces repl in_run (c # cs) =
     (if is_space c then (if in_run then sub_spaces repl True cs else repl @ sub_spaces repl True cs)
      else c # sub_spaces repl False cs)"

section \<open>The name normalizer: \<open>extract_core_name\<close>\<close>

text \<open>
  The repository has two programs, \<open>main.py\<close> and \<open>upgraded.py\<close>, that define the
  same functions with differences; the constants are prefixed with the file they embed.
\<close>

definition main_extensions :: "string list" where
  "main_extensions = [''mp4'', ''avi'', ''mkv'', ''mov'', ''wmv'', ''flv'', ''webm'', ''m4v'', ''3gp'',
     ''mpeg'', ''mpg'', ''ts'', ''mts'', ''m2ts'', ''vob'', ''ogv'', ''divx'', ''xvid'', ''gifs'']"

definition upgraded_extensions :: "string list" where
  "upgraded_extensions = [''mp4'', ''avi'', ''mkv'', ''mov'', ''wmv'', ''flv'', ''webm'', ''m4v'', ''3gp'',
     ''mpeg'', ''mpg'', ''ts'', ''mts'', ''m2ts'', ''vob'', ''ogv'', ''divx'', ''xvid'', ''gif'']"

definition main_common_terms :: "string list" where
  "main_common_terms = [''official'', ''trailer'', ''teaser'', ''hd'', ''full'', ''movie'', ''video'',
     ''download'', ''1080p'', ''720p'', ''4k'', ''scene'', ''clip'', ''part'',
     ''version'', ''extended'', ''director'', ''cut'', ''subtitles'', ''subs'']"

definition upgraded_common_terms :: "string list" where
  "upgraded_common_terms = [''official'', ''trailer'', ''teaser'', ''hd'', ''full'', ''movie'', ''video'',
     ''download'', ''1080p'', ''720p'', ''4k'', ''scene'', ''clip'', ''part'',
     ''version'', ''extended'', ''director'', ''cut'', ''subtitles'', ''subs'',
     ''x264'', ''h264'', ''hevc'', ''remux'', ''bluray'', ''bdrip'']"

definition is_open_square :: "char \<Rightarrow> bool" where
  "is_open_square c = (c = CHR ''['')"

definition is_close_square :: "char \<Rightarrow> bool" where
  "is_close_square c = (c = CHR '']'')"

definition is_open_any :: "char \<Rightarrow> bool" where
  "is_open_any c = (c = CHR ''['' \<or> c = CHR ''('')"

definition is_close_any :: "char \<Rightarrow> bool" where
  "is_close_any c = (c = CHR '']'' \<or> c = CHR '')'')"

text \<open>
  The last two statements of both versions:
  \<open>name = re.sub(r'\s+', ' ', name).strip(); return name.lower()\<close>, after
  \<open>re.sub(r'[^\w\s]', ' ', name)\<close>.
\<close>

definition clean_core :: "string \<Rightarrow> string" where
  "clean_core s = lower (strip (sub_spaces '' '' False (sub_nonword s)))"

text \<open>\<open>extract_core_name\<close> of \<open>main.py\<close>, lines 6 to 31.\<close>

definition main_extract_core_name :: "string \<Rightarrow> string" where
  "main_extract_core_name name =
     clean_core
       (sub_terms main_common_terms [] None
         (sub_brackets is_open_square is_close_square []
           (sub_extension main_extensions name)))"

text \<open>\<open>extract_core_name\<close> of \<open>upgraded.py\<close>, lines 38 to 70, on a \<open>str\<close>.\<close>

definition upgraded_extract_core_name :: "string \<Rightarrow> string" where
  "upgraded_extract_core_name name =
     clean_core
       (sub_terms upgraded_common_terms '' '' None
         (sub_brackets is_open_any is_close_any '' ''
           (sub_extension upgraded_extensions name)))"

section \<open>Sequence similarity: \<open>difflib.SequenceMatcher(None, a, b).ratio()\<close>\<close>

text \<open>
  Both programs score two strings with \<open>SequenceMatcher(None, a, b).ratio()\<close> of
  Python's standard library. The definitions of this section follow CPython's
  \<open>difflib.py\<close> for that call: no junk predicate (\<open>isjunk=None\<close>, so \<open>bjunk\<close> is
  empty and the two loops that extend a match over junk never run) and the default
  \<open>autojunk=True\<close>.
\<close>

text \<open>
  \<open>__chain_b\<close>: \<open>b2j\<close> maps a character to the increasing list of its positions in
  \<open>b\<close>; when \<open>b\<close> has at least 200 characters, the entries of the characters that occur
  more than \<open>len(b) // 100 + 1\<close> times (the popular ones) are deleted.
\<close>

definition popular :: "string \<Rightarrow> char \<Rightarrow> bool" where
  "popular b c = (200 \<le> length b \<and> length b div 100 + 1 < count_list b c)"

definition b2j :: "string \<Rightarrow> char \<Rightarrow> nat list" where
  "b2j b c = (if popular b c then [] else filter (\<lambda>j. b ! j = c) [0..<length b])"

text \<open>
  The inner loop of \<open>find_longest_match\<close>, \<open>for j in b2j.get(a[i], nothing)\<close>. The
  dictionaries \<open>j2len\<close> and \<open>newj2len\<close> are functions that are 0 off their keys
  (\<open>j2len.get(j-1, 0)\<close>; a stored length is at least 1). The state is \<open>newj2len\<close> with
  \<open>(besti, bestj, bestsize)\<close>.
\<close>

fun inner_loop ::
  "nat \<Rightarrow> nat \<Rightarrow> nat \<Rightarrow> (nat \<Rightarrow> nat) \<Rightarrow> nat list \<Rightarrow> (nat \<Rightarrow> nat) \<times> nat \<times> nat \<times> nat
     \<Rightarrow> (nat \<Rightarrow> nat) \<times> nat \<times> nat \<times> nat" where
  "inner_loop i blo bhi j2len [] st = st"
| "inner_loop i blo bhi j2len (j # js) (newj2len, besti, bestj, bestsize) =
     (if j < blo then inner_loop i blo bhi j2len js (newj2len, besti, bestj, bestsize)
      else if bhi \<le> j then (newj2len, besti, bestj, bestsize)
      else
        (let k = (if j = 0 then 0 else j2len (j - 1)) + 1 in
         if bestsize < k
         then inner_loop i blo bhi j2len js (newj2len(j := k), i + 1 - k, j + 1 - k, k)
         else inner_loop i blo bhi j2len js (newj2len(j := k), besti, bestj, bestsize)))"

text \<open>The outer loop, \<open>for i in range(alo, ahi)\<close>, over the list of its indices.\<close>

fun outer_loop ::
  "string \<Rightarrow> string \<Rightarrow> nat \<Rightarrow> nat \<Rightarrow> nat list \<Rightarrow> (nat \<Rightarrow> nat) \<times> nat \<times> nat \<times> nat
     \<Rightarrow> nat \<times> nat \<times> nat" where
  "outer_loop a b blo bhi [] (j2len, best) = best"
| "outer_loop a b blo bhi (i # is) (j2len, best) =
     outer_loop a b blo bhi is (inner_loop i blo bhi j2len (b2j b (a ! i)) (\<lambda>_. 0, best))"

text \<open>The two loops that extend the best match by equal characters on each end.\<close>

function extend_left :: "string \<Rightarrow> string \<Rightarrow> nat \<Rightarrow> nat \<Rightarrow> nat \<times> nat \<times> nat \<Rightarrow> nat \<times> nat \<times> nat" where
  "extend_left a b alo blo (besti, bestj, bestsize) =
     (if alo < besti \<and> blo < bestj \<and> a ! (besti - 1) = b ! (bestj - 1)
      then extend_left a b alo blo (besti - 1, bestj - 1, bestsize + 1)
      else (besti, bestj, bestsize))"
  by pat_completeness auto
termination
  by (relation "measure (\<lambda>(a, b, alo, blo, besti, bestj, bestsize). besti)") auto

function extend_right :: "string \<Rightarrow> string \<Rightarrow> nat \<Rightarrow> nat \<Rightarrow> nat \<times> nat \<times> nat \<Rightarrow> nat \<times> nat \<times> nat" where
  "extend_right a b ahi bhi (besti, bestj, bestsize) =
     (if besti + bestsize < ahi \<and> bestj + bestsize < bhi \<and> a ! (besti + bestsize) = b ! (bestj + bestsize)
      then extend_right a b ahi bhi (besti, bestj, bestsize + 1)
      else (besti, bestj, bestsize))"
  by pat_completeness auto
termination
  by (relation "measure (\<lambda>(a, b, ahi, bhi, besti, bestj, bestsize). ahi - (besti + bestsize))") auto

text \<open>\<open>find_longest_match(alo, ahi, blo, bhi)\<close>, with \<open>ahi \<le> len(a)\<close> and \<open>bhi \<le> len(b)\<close>.\<close>

definition find_longest_match :: "string \<Rightarrow> string \<Rightarrow> nat \<Rightarrow> nat \<Rightarrow> nat \<Rightarrow> nat \<Rightarrow> nat \<times> nat \<times> nat" where
  "find_longest_match a b alo ahi blo bhi =
     extend_right a b ahi bhi
       (extend_left a b alo blo
         (outer_loop a b blo bhi [alo..<ahi] (\<lambda>_. 0, alo, blo, 0)))"

subsection \<open>The match found lies inside the two ranges\<close>

text \<open>
  \<open>row_ok\<close> bounds the lengths stored for one row of the table: a key \<open>j\<close> lies in the
  range of \<open>b\<close>, and the match ending there starts inside both ranges. \<open>best_ok\<close> is the
  same for the best match so far.
\<close>

definition row_ok :: "nat \<Rightarrow> nat \<Rightarrow> nat \<Rightarrow> (nat \<Rightarrow> nat) \<Rightarrow> bool" where
  "row_ok blo bhi m J = (\<forall>j. J j \<noteq> 0 \<longrightarrow> blo \<le> j \<and> j < bhi \<and> J j \<le> m \<and> J j \<le> j + 1 - blo)"

definition best_ok :: "nat \<Rightarrow> nat \<Rightarrow> nat \<Rightarrow> nat \<Rightarrow> nat \<times> nat \<times> nat \<Rightarrow> bool" where
  "best_ok alo ahi blo bhi best = (case best of (bi, bj, bk) \<Rightarrow>
     alo \<le> bi \<and> blo \<le> bj \<and> (if bk = 0 then bi = alo \<and> bj = blo else bi + bk \<le> ahi \<and> bj + bk \<le> bhi))"

declare extend_left.simps [simp del]

declare extend_right.simps [simp del]

lemma row_ok_zero: "row_ok blo bhi m (\<lambda>_. 0)"
  by (simp add: row_ok_def)

lemma row_ok_upd:
  assumes "row_ok blo bhi m n" "blo \<le> j" "j < bhi" "k \<le> m" "k \<le> j + 1 - blo"
  shows "row_ok blo bhi m (n(j := k))"
  using assms by (auto simp: row_ok_def)

lemma dp_step_le:
  assumes "row_ok blo bhi m p" "blo \<le> j"
  shows "(if j = 0 then 0 else p (j - 1)) + 1 \<le> Suc m \<and> (if j = 0 then 0 else p (j - 1)) + 1 \<le> j + 1 - blo"
proof (cases "j = 0 \<or> p (j - 1) = 0")
  case True
  then show ?thesis using assms(2) by auto
next
  case False
  then have "p (j - 1) \<noteq> 0" "j \<noteq> 0" by simp_all
  then have "blo \<le> j - 1 \<and> p (j - 1) \<le> m \<and> p (j - 1) \<le> (j - 1) + 1 - blo"
    using assms(1) unfolding row_ok_def by blast
  then show ?thesis using \<open>j \<noteq> 0\<close> by auto
qed

lemma inner_loop_ok:
  assumes "alo \<le> i" "i < ahi" "row_ok blo bhi (i - alo) p"
  shows "row_ok blo bhi (Suc (i - alo)) n \<Longrightarrow> best_ok alo ahi blo bhi best \<Longrightarrow>
         inner_loop i blo bhi p js (n, best) = (n', best') \<Longrightarrow>
         row_ok blo bhi (Suc (i - alo)) n' \<and> best_ok alo ahi blo bhi best'"
proof (induction js arbitrary: n best)
  case Nil
  then show ?case by simp
next
  case (Cons j js)
  obtain bi bj bk where best: "best = (bi, bj, bk)" by (cases best) auto
  note run = Cons.prems(3)[unfolded best]
  show ?case
  proof (cases "j < blo")
    case True
    then have "inner_loop i blo bhi p js (n, best) = (n', best')"
      using run best by simp
    then show ?thesis using Cons.IH[OF Cons.prems(1) Cons.prems(2)] by blast
  next
    case lo: False
    show ?thesis
    proof (cases "bhi \<le> j")
      case True
      then have "n' = n" "best' = best" using run lo best by simp_all
      then show ?thesis using Cons.prems(1) Cons.prems(2) by simp
    next
      case hi: False
      define k where "k = (if j = 0 then 0 else p (j - 1)) + 1"
      have kb: "k \<le> Suc (i - alo)" "k \<le> j + 1 - blo"
        using dp_step_le[OF assms(3), of j] lo unfolding k_def by simp_all
      have n_ok: "row_ok blo bhi (Suc (i - alo)) (n(j := k))"
        using row_ok_upd[OF Cons.prems(1), of j k] lo hi kb by simp
      show ?thesis
      proof (cases "bk < k")
        case True
        have "alo \<le> i + 1 - k" "blo \<le> j + 1 - k" "i + 1 - k + k \<le> ahi" "j + 1 - k + k \<le> bhi" "k \<noteq> 0"
          using kb assms(1,2) lo hi True by arith+
        then have b_ok: "best_ok alo ahi blo bhi (i + 1 - k, j + 1 - k, k)"
          unfolding best_ok_def by simp
        have "inner_loop i blo bhi p js (n(j := k), i + 1 - k, j + 1 - k, k) = (n', best')"
          using run lo hi True unfolding k_def by (simp add: Let_def)
        then show ?thesis using Cons.IH[OF n_ok b_ok] by blast
      next
        case False
        have "inner_loop i blo bhi p js (n(j := k), best) = (n', best')"
          using run best lo hi False unfolding k_def by (simp add: Let_def)
        then show ?thesis using Cons.IH[OF n_ok Cons.prems(2)] by blast
      qed
    qed
  qed
qed

lemma outer_loop_ok:
  "row_ok blo bhi (i - alo) p \<Longrightarrow> best_ok alo ahi blo bhi best \<Longrightarrow> alo \<le> i \<Longrightarrow>
   best_ok alo ahi blo bhi (outer_loop a b blo bhi [i..<ahi] (p, best))"
proof (induction "ahi - i" arbitrary: i p best)
  case 0
  then show ?case by simp
next
  case (Suc d)
  then have lt: "i < ahi" by simp
  obtain n' best' where il: "inner_loop i blo bhi p (b2j b (a ! i)) (\<lambda>_. 0, best) = (n', best')"
    by (cases "inner_loop i blo bhi p (b2j b (a ! i)) (\<lambda>_. 0, best)") auto
  have ok: "row_ok blo bhi (Suc (i - alo)) n' \<and> best_ok alo ahi blo bhi best'"
    using inner_loop_ok[OF Suc.prems(3) lt Suc.prems(1) row_ok_zero Suc.prems(2) il] .
  have "row_ok blo bhi (Suc i - alo) n'" using ok Suc.prems(3) by (simp add: Suc_diff_le)
  moreover have "d = ahi - Suc i" using Suc.hyps(2) by simp
  ultimately have "best_ok alo ahi blo bhi (outer_loop a b blo bhi [Suc i..<ahi] (n', best'))"
    using Suc.hyps(1)[of "Suc i" n' best'] ok Suc.prems(3) by simp
  then show ?case using lt il by (simp add: upt_conv_Cons)
qed

lemma extend_left_ok:
  "best_ok alo ahi blo bhi best \<Longrightarrow> best_ok alo ahi blo bhi (extend_left a b alo blo best)"
proof (induction a b alo blo best rule: extend_left.induct)
  case (1 a b alo blo besti bestj bestsize)
  show ?case
  proof (cases "alo < besti \<and> blo < bestj \<and> a ! (besti - 1) = b ! (bestj - 1)")
    case True
    then have "best_ok alo ahi blo bhi (besti - 1, bestj - 1, bestsize + 1)"
      using "1.prems" unfolding best_ok_def by (auto split: if_splits)
    then have "best_ok alo ahi blo bhi (extend_left a b alo blo (besti - 1, bestj - 1, bestsize + 1))"
      using "1.IH" True by blast
    then show ?thesis using True by (subst extend_left.simps) simp
  next
    case False
    then show ?thesis using "1.prems" by (subst extend_left.simps) auto
  qed
qed

lemma extend_right_ok:
  "best_ok alo ahi blo bhi best \<Longrightarrow> best_ok alo ahi blo bhi (extend_right a b ahi bhi best)"
proof (induction a b ahi bhi best rule: extend_right.induct)
  case (1 a b ahi bhi besti bestj bestsize)
  show ?case
  proof (cases "besti + bestsize < ahi \<and> bestj + bestsize < bhi \<and> a ! (besti + bestsize) = b ! (bestj + bestsize)")
    case True
    then have "best_ok alo ahi blo bhi (besti, bestj, bestsize + 1)"
      using "1.prems" unfolding best_ok_def by (auto split: if_splits)
    then have "best_ok alo ahi blo bhi (extend_right a b ahi bhi (besti, bestj, bestsize + 1))"
      using "1.IH" True by blast
    then show ?thesis using True by (subst extend_right.simps) simp
  next
    case False
    then show ?thesis using "1.prems" by (subst extend_right.simps) auto
  qed
qed

lemma find_longest_match_ok:
  "best_ok alo ahi blo bhi (find_longest_match a b alo ahi blo bhi)"
proof -
  have "best_ok alo ahi blo bhi (alo, blo, 0)" by (simp add: best_ok_def)
  then have "best_ok alo ahi blo bhi (outer_loop a b blo bhi [alo..<ahi] (\<lambda>_. 0, alo, blo, 0))"
    using outer_loop_ok[of blo bhi alo alo "\<lambda>_. 0"] row_ok_zero by simp
  then show ?thesis
    unfolding find_longest_match_def by (intro extend_right_ok extend_left_ok)
qed

lemma find_longest_match_bounds:
  assumes "find_longest_match a b alo ahi blo bhi = (i, j, k)" "k \<noteq> 0"
  shows "alo \<le> i \<and> i + k \<le> ahi \<and> blo \<le> j \<and> j + k \<le> bhi"
  using find_longest_match_ok[of alo ahi blo bhi a b] assms by (simp add: best_ok_def)

text \<open>
  \<open>get_matching_blocks\<close>, as far as \<open>ratio\<close> needs it: the sum of the sizes of the
  matching blocks. The source keeps a queue of ranges still to be examined; the order
  in which they are taken does not change the sum, so the model recurses on the range
  to the left and on the range to the right of the longest match.
\<close>

function matching_size :: "string \<Rightarrow> string \<Rightarrow> nat \<Rightarrow> nat \<Rightarrow> nat \<Rightarrow> nat \<Rightarrow> nat" where
  "matching_size a b alo ahi blo bhi =
     (case find_longest_match a b alo ahi blo bhi of (i, j, k) \<Rightarrow>
        if k = 0 then 0
        else k + (if alo < i \<and> blo < j then matching_size a b alo i blo j else 0)
               + (if i + k < ahi \<and> j + k < bhi then matching_size a b (i + k) ahi (j + k) bhi else 0))"
  by pat_completeness auto
termination
proof (relation "measure (\<lambda>(a, b, alo, ahi, blo, bhi). ahi - alo)", goal_cases)
  case 1
  then show ?case by simp
next
  case (2 a b alo ahi blo bhi i y j k)
  then have "find_longest_match a b alo ahi blo bhi = (i, j, k)" "k \<noteq> 0" by simp_all
  then show ?case using find_longest_match_bounds[of a b alo ahi blo bhi i j k] by auto
next
  case (3 a b alo ahi blo bhi i y j k)
  then have "find_longest_match a b alo ahi blo bhi = (i, j, k)" "k \<noteq> 0" "i + k < ahi" by simp_all
  then show ?case using find_longest_match_bounds[of a b alo ahi blo bhi i j k] by auto
qed

declare matching_size.simps [simp del]

text \<open>
  \<open>ratio\<close> with \<open>_calculate_ratio\<close>: \<open>2.0 * matches / length\<close>, and 1.0 when both strings
  are empty. Scores are Python floats; the model computes with the exact rationals.
\<close>

definition ratio :: "string \<Rightarrow> string \<Rightarrow> rat" where
  "ratio a b =
     (let matches = matching_size a b 0 (length a) 0 (length b); total = length a + length b
      in if total \<noteq> 0 then 2 * of_nat matches / of_nat total else 1)"

section \<open>Scoring and selection in \<open>main.py\<close>\<close>

text \<open>\<open>similarity_score\<close> of \<open>main.py\<close>, lines 33 to 35.\<close>

definition main_similarity_score :: "string \<Rightarrow> string \<Rightarrow> rat" where
  "main_similarity_score str1 str2 = ratio str1 str2"

text \<open>
  The list \<open>video_extensions\<close> (\<open>VIDEO_EXTS\<close> in \<open>upgraded.py\<close>) and the filter
  \<open>any(filename.lower().endswith(ext) for ext in video_extensions)\<close>.
\<close>

definition video_extensions :: "string list" where
  "video_extensions = [''.mp4'', ''.avi'', ''.mkv'', ''.mov'', ''.wmv'', ''.flv'',
     ''.webm'', ''.m4v'', ''.3gp'', ''.mpeg'', ''.mpg'', ''.ts'',
     ''.mts'', ''.m2ts'', ''.vob'', ''.ogv'', ''.divx'', ''.xvid'']"

definition is_video :: "string \<Rightarrow> bool" where
  "is_video filename = list_ex (\<lambda>ext. endswith (lower filename) ext) video_extensions"

text \<open>\<open>set(core.split())\<close>\<close>

definition word_set :: "string \<Rightarrow> string set" where
  "word_set s = set (str_split [] s)"

text \<open>
  The word-overlap signal of \<open>find_best_video_match\<close> (\<open>main.py\<close> lines 66 to 71,
  \<open>upgraded.py\<close> lines 117 to 121), the same in both files.
\<close>

definition word_overlap :: "string \<Rightarrow> string \<Rightarrow> rat" where
  "word_overlap folder_core video_core =
     (let folder_words = word_set folder_core; video_words = word_set video_core
      in if folder_words \<noteq> {} \<and> video_words \<noteq> {}
         then of_nat (card (folder_words \<inter> video_words)) / of_nat (card (folder_words \<union> video_words))
         else 0)"

text \<open>
  The word signal of \<open>find_videos_by_content_similarity\<close> (\<open>main.py\<close> lines 120 to
  127, \<open>upgraded.py\<close> lines 146 to 151), the same in both files.
\<close>

definition word_similarity :: "string \<Rightarrow> string \<Rightarrow> rat" where
  "word_similarity clean_folder clean_video =
     (let folder_words = word_set clean_folder; video_words = word_set clean_video
      in if folder_words \<noteq> {} \<and> video_words \<noteq> {}
         then of_nat (card (folder_words \<inter> video_words)) / of_nat (max (card folder_words) (card video_words))
         else 0)"

text \<open>The score of one candidate in \<open>find_best_video_match\<close> of \<open>main.py\<close>, lines 57 to 74.\<close>

definition main_contains_score :: "string \<Rightarrow> string \<Rightarrow> rat" where
  "main_contains_score folder_core video_core =
     (if substring_in folder_core video_core \<or> substring_in video_core folder_core then 8 / 10 else 0)"

definition main_total_score :: "string \<Rightarrow> string \<Rightarrow> rat" where
  "main_total_score folder_core video_core =
     main_similarity_score folder_core video_core * (5 / 10)
     + main_contains_score folder_core video_core * (3 / 10)
     + word_overlap folder_core video_core * (2 / 10)"

text \<open>
  The loop of \<open>find_best_video_match\<close> in \<open>main.py\<close> over \<open>os.listdir(downloads_path)\<close>,
  which is the argument \<open>listing\<close>; \<open>join\<close> stands for
  \<open>os.path.join(downloads_path, _)\<close>. The state is \<open>(best_match, best_score)\<close>.
\<close>

fun main_best_loop ::
  "(string \<Rightarrow> string) \<Rightarrow> string \<Rightarrow> rat \<Rightarrow> string list \<Rightarrow> string option \<times> rat \<Rightarrow> string option \<times> rat" where
  "main_best_loop join folder_core threshold [] st = st"
| "main_best_loop join folder_core threshold (filename # rest) (best_match, best_score) =
     (if \<not> is_video filename then main_best_loop join folder_core threshold rest (best_match, best_score)
      else
        (let total_score = main_total_score folder_core (main_extract_core_name filename) in
         if best_score < total_score \<and> threshold \<le> total_score
         then main_best_loop join folder_core threshold rest (Some (join filename), total_score)
         else main_best_loop join folder_core threshold rest (best_match, best_score)))"

definition main_find_best_video_match ::
  "(string \<Rightarrow> string) \<Rightarrow> string \<Rightarrow> string list \<Rightarrow> rat \<Rightarrow> string option \<times> rat" where
  "main_find_best_video_match join folder_name listing threshold =
     main_best_loop join (main_extract_core_name folder_name) threshold listing (None, 0)"

text \<open>
  \<open>os.path.splitext(filename)[0]\<close> for a directory entry, which holds no path
  separator: the name up to its last dot, unless only dots stand before that dot (or
  there is no dot), in which case the whole name.
\<close>

definition splitext_root :: "string \<Rightarrow> string" where
  "splitext_root p =
     (case dropWhile (\<lambda>c. c \<noteq> CHR ''.'') (rev p) of
        [] \<Rightarrow> p
      | _ # stem_rev \<Rightarrow> if list_ex (\<lambda>c. c \<noteq> CHR ''.'') stem_rev then rev stem_rev else p)"

text \<open>
  The cleaning of \<open>find_videos_by_content_similarity\<close>, which does not call
  \<open>extract_core_name\<close>: non-word characters to spaces, lower case, whitespace collapsed
  and stripped. (\<open>main.py\<close> lines 104 to 109, \<open>upgraded.py\<close> lines 134, 135, 141, 142.)
\<close>

definition basic_clean :: "string \<Rightarrow> string" where
  "basic_clean s = strip (sub_spaces '' '' False (lower (sub_nonword s)))"

definition no_spaces :: "string \<Rightarrow> string" where
  "no_spaces s = sub_spaces [] False s"

text \<open>The combined score of one candidate, \<open>main.py\<close> lines 99 to 130.\<close>

definition main_combined_score :: "string \<Rightarrow> string \<Rightarrow> rat" where
  "main_combined_score folder_base filename =
     (let video_base = splitext_root filename;
          clean_folder = basic_clean folder_base;
          clean_video = basic_clean (sub_brackets is_open_square is_close_square [] video_base);
          similarity = ratio clean_folder clean_video;
          no_space_similarity = ratio (no_spaces clean_folder) (no_spaces clean_video)
      in max (max similarity no_space_similarity) (word_similarity clean_folder clean_video))"

text \<open>
  The list \<open>potential_matches\<close>, as pairs of path and score, and
  \<open>max(potential_matches, key=lambda x: x['score'])\<close>, which returns the first of the
  entries with the greatest score.
\<close>

fun main_potential_matches :: "(string \<Rightarrow> string) \<Rightarrow> string \<Rightarrow> string list \<Rightarrow> (string \<times> rat) list" where
  "main_potential_matches join folder_base [] = []"
| "main_potential_matches join folder_base (filename # rest) =
     (if \<not> is_video filename then main_potential_matches join folder_base rest
      else if 6 / 10 < main_combined_score folder_base filename
      then (join filename, main_combined_score folder_base filename) # main_potential_matches join folder_base rest
      else main_potential_matches join folder_base rest)"

fun max_by_score :: "string \<times> rat \<Rightarrow> (string \<times> rat) list \<Rightarrow> string \<times> rat" where
  "max_by_score best [] = best"
| "max_by_score best (x # xs) = (if snd best < snd x then max_by_score x xs else max_by_score best xs)"

definition main_find_videos_by_content_similarity ::
  "(string \<Rightarrow> string) \<Rightarrow> string \<Rightarrow> string list \<Rightarrow> string option \<times> rat" where
  "main_find_videos_by_content_similarity join folder_name listing =
     (case main_potential_matches join (replace ''.gifs'' [] folder_name) listing of
        [] \<Rightarrow> (None, 0)
      | x # xs \<Rightarrow> (case max_by_score x xs of (path, score) \<Rightarrow> (Some path, score)))"

text \<open>
  Truth value of \<open>video_file\<close> in \<open>if not video_file\<close>: \<open>None\<close> and the empty string are
  false.
\<close>

definition truthy :: "string option \<Rightarrow> bool" where
  "truthy video_file = (case video_file of None \<Rightarrow> False | Some p \<Rightarrow> p \<noteq> [])"

text \<open>
  The selection in \<open>cleanup_gifs_folders_and_videos\<close> and \<open>preview_cleanup\<close>
  (\<open>main.py\<close> lines 203 to 207 and 311 to 314): the strict strategy at threshold 0.65,
  then the relaxed one.
\<close>

definition main_select :: "(string \<Rightarrow> string) \<Rightarrow> string \<Rightarrow> string list \<Rightarrow> string option \<times> rat" where
  "main_select join folder listing =
     (case main_find_best_video_match join folder listing (65 / 100) of (video_file, score) \<Rightarrow>
        if \<not> truthy video_file then main_find_videos_by_content_similarity join folder listing
        else (video_file, score))"

section \<open>Scoring and selection in \<open>upgraded.py\<close>\<close>

text \<open>\<open>similarity_score\<close> of \<open>upgraded.py\<close>, lines 72 to 76.\<close>

definition upgraded_similarity_score :: "string \<Rightarrow> string \<Rightarrow> rat" where
  "upgraded_similarity_score a b = (if a = [] \<or> b = [] then 0 else ratio a b)"

text \<open>The score of one candidate in \<open>find_best_video_match\<close>, lines 106 to 123.\<close>

definition upgraded_contains_score :: "string \<Rightarrow> string \<Rightarrow> rat" where
  "upgraded_contains_score folder_core video_core =
     (if folder_core \<noteq> [] \<and> video_core \<noteq> [] then
        (if substring_in folder_core video_core \<or> substring_in video_core folder_core then 8 / 10 else 0)
      else 0)"

definition upgraded_total :: "string \<Rightarrow> string \<Rightarrow> rat" where
  "upgraded_total folder_core video_core =
     upgraded_similarity_score folder_core video_core * (5 / 10)
     + upgraded_contains_score folder_core video_core * (3 / 10)
     + word_overlap folder_core video_core * (2 / 10)"

text \<open>
  The loop of \<open>find_best_video_match\<close> over \<open>video_index.items()\<close>: the dictionary is the
  list of its items \<open>(filename, full_path)\<close> in iteration order.
\<close>

fun upgraded_best_loop ::
  "string \<Rightarrow> rat \<Rightarrow> (string \<times> string) list \<Rightarrow> string option \<times> rat \<Rightarrow> string option \<times> rat" where
  "upgraded_best_loop folder_core threshold [] st = st"
| "upgraded_best_loop folder_core threshold ((filename, full_path) # rest) (best_match, best_score) =
     (let total = upgraded_total folder_core (upgraded_extract_core_name filename) in
      if best_score < total \<and> threshold \<le> total
      then upgraded_best_loop folder_core threshold rest (Some full_path, total)
      else upgraded_best_loop folder_core threshold rest (best_match, best_score))"

definition upgraded_find_best_video_match ::
  "string \<Rightarrow> (string \<times> string) list \<Rightarrow> rat \<Rightarrow> string option \<times> rat" where
  "upgraded_find_best_video_match folder_name video_index threshold =
     upgraded_best_loop (upgraded_extract_core_name folder_name) threshold video_index (None, 0)"

text \<open>The combined score of one candidate, \<open>upgraded.py\<close> lines 132 to 153.\<close>

definition upgraded_combined :: "string \<Rightarrow> string \<Rightarrow> rat" where
  "upgraded_combined folder_name filename =
     (let clean_folder = basic_clean (replace ''.gifs'' [] folder_name);
          clean_video = basic_clean (sub_brackets is_open_any is_close_any '' '' (splitext_root filename));
          sim_direct = upgraded_similarity_score clean_folder clean_video;
          sim_no_space = upgraded_similarity_score (no_spaces clean_folder) (no_spaces clean_video)
      in max (max sim_direct sim_no_space) (word_similarity clean_folder clean_video))"

text \<open>
  The list \<open>candidates\<close> of pairs \<open>(combined, full_path)\<close>, then
  \<open>candidates.sort(reverse=True, key=lambda x: x[0])\<close> and its first entry. Python's sort
  is stable, also with \<open>reverse=True\<close>: entries with equal scores keep their order. That
  is the stable sort by the negated score.
\<close>

fun upgraded_candidates :: "string \<Rightarrow> rat \<Rightarrow> (string \<times> string) list \<Rightarrow> (rat \<times> string) list" where
  "upgraded_candidates folder_name low_threshold [] = []"
| "upgraded_candidates folder_name low_threshold ((filename, full_path) # rest) =
     (if low_threshold \<le> upgraded_combined folder_name filename
      then (upgraded_combined folder_name filename, full_path) # upgraded_candidates folder_name low_threshold rest
      else upgraded_candidates folder_name low_threshold rest)"

definition upgraded_find_videos_by_content_similarity ::
  "string \<Rightarrow> (string \<times> string) list \<Rightarrow> rat \<Rightarrow> string option \<times> rat" where
  "upgraded_find_videos_by_content_similarity folder_name video_index low_threshold =
     (case sort_key (\<lambda>x. - fst x) (upgraded_candidates folder_name low_threshold video_index) of
        [] \<Rightarrow> (None, 0)
      | (combined, full_path) # _ \<Rightarrow> (Some full_path, combined))"

text \<open>
  The selection in \<open>gather_pairs\<close>, lines 182 to 185: the strict strategy at
  \<open>threshold\<close>, then the relaxed one at \<open>threshold - 0.05\<close>.
\<close>

definition upgraded_select :: "string \<Rightarrow> (string \<times> string) list \<Rightarrow> rat \<Rightarrow> string option \<times> rat" where
  "upgraded_select item video_index threshold =
     (case upgraded_find_best_video_match item video_index threshold of (video_file, score) \<Rightarrow>
        if \<not> truthy video_file
        then upgraded_find_videos_by_content_similarity item video_index (threshold - 5 / 100)
        else (video_file, score))"

section \<open>The word signals (claim C4)\<close>

text \<open>
  The word-overlap signal as the specification words it: the size of the intersection
  of the two word sets divided by the size of their union, 0 if either set is empty.
\<close>

definition jaccard :: "string set \<Rightarrow> string set \<Rightarrow> rat" where
  "jaccard A B = (if A = {} \<or> B = {} then 0 else of_nat (card (A \<inter> B)) / of_nat (card (A \<union> B)))"

text \<open>
  Claim C4, as stated: the word signal is the Jaccard index of the two word sets in
  both strategies. It fails for the relaxed strategy, whose word signal divides the
  size of the intersection by the larger of the two set sizes: for the cleaned names
  \<open>a b\<close> and \<open>a c\<close> the relaxed signal is 1/2 and the Jaccard index is 1/3.
\<close>

theorem relaxed_word_signal_not_jaccard:
  "word_similarity ''a b'' ''a c'' = 1 / 2 \<and> jaccard (word_set ''a b'') (word_set ''a c'') = 1 / 3"
  by code_simp

text \<open>
  Claim C4, amended: in the strict strategy of both programs the word-overlap signal is
  the Jaccard index of the whitespace-split word sets of the two core strings (0 if
  either set is empty) and is the term weighted 0.2 of the blend. In the relaxed
  strategy of both programs the word signal is the size of the intersection divided by
  the larger of the two set sizes (0 if either set is empty), computed on the cleaned
  names, and is one of the three signals whose maximum is the combined score.
\<close>

theorem word_signal_jaccard_strict_max_relaxed:
  "word_overlap a b = jaccard (word_set a) (word_set b) \<and>
   main_total_score a b =
     main_similarity_score a b * (5 / 10) + main_contains_score a b * (3 / 10)
       + jaccard (word_set a) (word_set b) * (2 / 10) \<and>
   upgraded_total a b =
     upgraded_similarity_score a b * (5 / 10) + upgraded_contains_score a b * (3 / 10)
       + jaccard (word_set a) (word_set b) * (2 / 10) \<and>
   word_similarity a b =
     (if word_set a = {} \<or> word_set b = {} then 0
      else of_nat (card (word_set a \<inter> word_set b)) / of_nat (max (card (word_set a)) (card (word_set b)))) \<and>
   main_combined_score folder_base filename =
     (let clean_folder = basic_clean folder_base;
          clean_video = basic_clean (sub_brackets is_open_square is_close_square [] (splitext_root filename))
      in max (max (ratio clean_folder clean_video) (ratio (no_spaces clean_folder) (no_spaces clean_video)))
             (word_similarity clean_folder clean_video)) \<and>
   upgraded_combined folder_name filename =
     (let clean_folder = basic_clean (replace ''.gifs'' [] folder_name);
          clean_video = basic_clean (sub_brackets is_open_any is_close_any '' '' (splitext_root filename))
      in max (max (upgraded_similarity_score clean_folder clean_video)
                  (upgraded_similarity_score (no_spaces clean_folder) (no_spaces clean_video)))
             (word_similarity clean_folder clean_video))"
  by (simp add: word_overlap_def jaccard_def main_total_score_def upgraded_total_def
      word_similarity_def main_combined_score_def upgraded_combined_def Let_def)

section \<open>Bounds of the scores (claim C10)\<close>

text \<open>
  The matching blocks lie side by side inside both ranges, so their sizes add up to at
  most the length of the shorter range, and \<open>ratio\<close> is at most 1.
\<close>

lemma matching_size_le:
  "matching_size a b alo ahi blo bhi \<le> min (ahi - alo) (bhi - blo)"
proof (induction a b alo ahi blo bhi rule: matching_size.induct)
  case (1 a b alo ahi blo bhi)
  obtain i j k where flm: "find_longest_match a b alo ahi blo bhi = (i, j, k)"
    by (cases "find_longest_match a b alo ahi blo bhi") auto
  show ?case
  proof (cases "k = 0")
    case True
    then show ?thesis using flm by (subst matching_size.simps) simp
  next
    case False
    have bnd: "alo \<le> i" "i + k \<le> ahi" "blo \<le> j" "j + k \<le> bhi"
      using find_longest_match_bounds[OF flm False] by simp_all
    define l where "l = (if alo < i \<and> blo < j then matching_size a b alo i blo j else 0)"
    define r where "r = (if i + k < ahi \<and> j + k < bhi then matching_size a b (i + k) ahi (j + k) bhi else 0)"
    have l: "l \<le> min (i - alo) (j - blo)"
      unfolding l_def using "1.IH"(1)[OF flm[symmetric] refl False] by simp
    have r: "r \<le> min (ahi - (i + k)) (bhi - (j + k))"
      unfolding r_def using "1.IH"(2)[OF flm[symmetric] refl False] by simp
    have "matching_size a b alo ahi blo bhi = k + l + r"
      using flm False by (subst matching_size.simps) (simp add: l_def r_def)
    moreover have "k + l + r \<le> ahi - alo" "k + l + r \<le> bhi - blo"
      using l r bnd by arith+
    ultimately show ?thesis by simp
  qed
qed

lemma ratio_le_1: "ratio a b \<le> 1"
proof -
  have "matching_size a b 0 (length a) 0 (length b) \<le> min (length a) (length b)"
    using matching_size_le[of a b 0 "length a" 0 "length b"] by simp
  then have "2 * matching_size a b 0 (length a) 0 (length b) \<le> length a + length b" by simp
  then have "(of_nat (2 * matching_size a b 0 (length a) 0 (length b)) :: rat) \<le> of_nat (length a + length b)"
    using of_nat_le_iff by blast
  then show ?thesis
    unfolding ratio_def Let_def by (simp add: divide_le_eq)
qed

lemma ratio_ge_0: "0 \<le> ratio a b"
  unfolding ratio_def Let_def by simp

lemma word_overlap_le_1: "word_overlap a b \<le> 1"
proof -
  have "card (word_set a \<inter> word_set b) \<le> card (word_set a \<union> word_set b)"
    by (rule card_mono) (auto simp: word_set_def)
  then have "(of_nat (card (word_set a \<inter> word_set b)) :: rat) \<le> of_nat (card (word_set a \<union> word_set b))"
    using of_nat_le_iff by blast
  then show ?thesis
    unfolding word_overlap_def Let_def by (auto simp: divide_le_eq_1)
qed

lemma main_total_score_le: "main_total_score a b \<le> 94 / 100"
proof -
  have "main_similarity_score a b \<le> 1" by (simp add: main_similarity_score_def ratio_le_1)
  moreover have "main_contains_score a b \<le> 8 / 10" by (simp add: main_contains_score_def)
  moreover note word_overlap_le_1[of a b]
  ultimately show ?thesis unfolding main_total_score_def by simp
qed

lemma upgraded_total_le: "upgraded_total a b \<le> 94 / 100"
proof -
  have "upgraded_similarity_score a b \<le> 1" by (simp add: upgraded_similarity_score_def ratio_le_1)
  moreover have "upgraded_contains_score a b \<le> 8 / 10" by (simp add: upgraded_contains_score_def)
  moreover note word_overlap_le_1[of a b]
  ultimately show ?thesis unfolding upgraded_total_def by simp
qed

lemma main_best_loop_high_threshold:
  "94 / 100 < threshold \<Longrightarrow> main_best_loop join fc threshold listing st = st"
proof (induction listing arbitrary: st)
  case Nil
  then show ?case by simp
next
  case (Cons filename rest)
  obtain bm bs where st: "st = (bm, bs)" by (cases st) auto
  have "\<not> threshold \<le> main_total_score fc (main_extract_core_name filename)"
    using main_total_score_le[of fc "main_extract_core_name filename"] Cons.prems by simp
  then show ?case using Cons.IH[OF Cons.prems] st by (simp add: Let_def)
qed

lemma upgraded_best_loop_high_threshold:
  "94 / 100 < threshold \<Longrightarrow> upgraded_best_loop fc threshold idx st = st"
proof (induction idx arbitrary: st)
  case Nil
  then show ?case by simp
next
  case (Cons entry rest)
  obtain bm bs where st: "st = (bm, bs)" by (cases st) auto
  obtain filename full_path where e: "entry = (filename, full_path)" by (cases entry) auto
  have "\<not> threshold \<le> upgraded_total fc (upgraded_extract_core_name filename)"
    using upgraded_total_le[of fc "upgraded_extract_core_name filename"] Cons.prems by simp
  then show ?case using Cons.IH[OF Cons.prems] st e by (simp add: Let_def)
qed

text \<open>
  Claim C10: for every pair of names the strict combined score is at most 0.94
  (each signal is at most 1, the containment signal at most 0.8), in both programs; so
  for every strict threshold greater than 0.94 the strict strategy returns no match,
  whatever the source name and the candidates.
\<close>

theorem strict_score_at_most_094:
  "main_total_score folder_core video_core \<le> 94 / 100 \<and>
   upgraded_total folder_core video_core \<le> 94 / 100 \<and>
   (94 / 100 < threshold \<longrightarrow>
      main_find_best_video_match join folder_name listing threshold = (None, 0) \<and>
      upgraded_find_best_video_match folder_name video_index threshold = (None, 0))"
proof (intro conjI impI)
  show "main_total_score folder_core video_core \<le> 94 / 100" by (rule main_total_score_le)
  show "upgraded_total folder_core video_core \<le> 94 / 100" by (rule upgraded_total_le)
next
  assume "94 / 100 < threshold"
  then show "main_find_best_video_match join folder_name listing threshold = (None, 0)"
    unfolding main_find_best_video_match_def by (rule main_best_loop_high_threshold)
next
  assume "94 / 100 < threshold"
  then show "upgraded_find_best_video_match folder_name video_index threshold = (None, 0)"
    unfolding upgraded_find_best_video_match_def by (rule upgraded_best_loop_high_threshold)
qed

text \<open>
  The bound is met by two equal core strings, and at threshold 0.95 a candidate with
  the name of the folder is not matched.
\<close>

theorem strict_score_at_most_094_witness:
  "main_total_score ''show s01e01'' ''show s01e01'' \<le> 94 / 100 \<and>
   upgraded_total ''show s01e01'' ''show s01e01'' \<le> 94 / 100 \<and>
   (94 / 100 :: rat) < 95 / 100 \<and>
   main_find_best_video_match (\<lambda>f. ''downloads/'' @ f) ''Show S01E01.gifs'' [''Show S01E01.mp4''] (95 / 100) = (None, 0) \<and>
   upgraded_find_best_video_match ''Show S01E01.gifs'' [(''Show S01E01.mp4'', ''downloads/Show S01E01.mp4'')] (95 / 100) = (None, 0)"
  using strict_score_at_most_094[of "''show s01e01''" "''show s01e01''" "95 / 100" "\<lambda>f. ''downloads/'' @ f"
    "''Show S01E01.gifs''" "[''Show S01E01.mp4'']" "[(''Show S01E01.mp4'', ''downloads/Show S01E01.mp4'')]"]
  by simp

section \<open>The strict loops with the score of a candidate left open\<close>

text \<open>
  The scores of the source are Python floats. The rational scores \<open>main_total_score\<close>
  and \<open>upgraded_total\<close> are the values of the same expressions without the rounding of
  the float operations, so two candidates whose rational scores are equal, or a
  candidate whose rational score equals the threshold, can compare otherwise in the
  source. What the loops do with the scores does not depend on how they are computed.
  In the two loops below the score of a candidate is a parameter: \<open>total_of folder_core
  video_core\<close> stands for the value the source computes on the line
  \<open>total_score = ...\<close> (\<open>main.py\<close> line 74) or \<open>total = ...\<close> (\<open>upgraded.py\<close> line 123),
  in any linearly ordered type with a zero, as the floats of the source are (no score
  is NaN); the zero is the initial \<open>best_score\<close>. The rest of each loop is the text of
  \<open>main_best_loop\<close> and \<open>upgraded_best_loop\<close>, which are the instances at the rational
  scores.
\<close>

fun main_best_loop_by ::
  "(string \<Rightarrow> string \<Rightarrow> 's::{linorder,zero}) \<Rightarrow> (string \<Rightarrow> string) \<Rightarrow> string \<Rightarrow> 's \<Rightarrow> string list \<Rightarrow>
   string option \<times> 's \<Rightarrow> string option \<times> 's" where
  "main_best_loop_by total_of join folder_core threshold [] st = st"
| "main_best_loop_by total_of join folder_core threshold (filename # rest) (best_match, best_score) =
     (if \<not> is_video filename then main_best_loop_by total_of join folder_core threshold rest (best_match, best_score)
      else
        (let total_score = total_of folder_core (main_extract_core_name filename) in
         if best_score < total_score \<and> threshold \<le> total_score
         then main_best_loop_by total_of join folder_core threshold rest (Some (join filename), total_score)
         else main_best_loop_by total_of join folder_core threshold rest (best_match, best_score)))"

definition main_find_best_video_match_by ::
  "(string \<Rightarrow> string \<Rightarrow> 's::{linorder,zero}) \<Rightarrow> (string \<Rightarrow> string) \<Rightarrow> string \<Rightarrow> string list \<Rightarrow> 's \<Rightarrow>
   string option \<times> 's" where
  "main_find_best_video_match_by total_of join folder_name listing threshold =
     main_best_loop_by total_of join (main_extract_core_name folder_name) threshold listing (None, 0)"

fun upgraded_best_loop_by ::
  "(string \<Rightarrow> string \<Rightarrow> 's::{linorder,zero}) \<Rightarrow> string \<Rightarrow> 's \<Rightarrow> (string \<times> string) list \<Rightarrow>
   string option \<times> 's \<Rightarrow> string option \<times> 's" where
  "upgraded_best_loop_by total_of folder_core threshold [] st = st"
| "upgraded_best_loop_by total_of folder_core threshold ((filename, full_path) # rest) (best_match, best_score) =
     (let total = total_of folder_core (upgraded_extract_core_name filename) in
      if best_score < total \<and> threshold \<le> total
      then upgraded_best_loop_by total_of folder_core threshold rest (Some full_path, total)
      else upgraded_best_loop_by total_of folder_core threshold rest (best_match, best_score))"

definition upgraded_find_best_video_match_by ::
  "(string \<Rightarrow> string \<Rightarrow> 's::{linorder,zero}) \<Rightarrow> string \<Rightarrow> (string \<times> string) list \<Rightarrow> 's \<Rightarrow> string option \<times> 's" where
  "upgraded_find_best_video_match_by total_of folder_name video_index threshold =
     upgraded_best_loop_by total_of (upgraded_extract_core_name folder_name) threshold video_index (None, 0)"

text \<open>
  Both loops are one scan over the candidates, in their order, with a score \<open>sc\<close> and
  a locator \<open>loc\<close> for each: the best match so far is replaced only by a candidate
  that scores strictly more and reaches the threshold.
\<close>

fun strict_scan ::
  "('a \<Rightarrow> 's::linorder) \<Rightarrow> ('a \<Rightarrow> string) \<Rightarrow> 's \<Rightarrow> 'a list \<Rightarrow> string option \<times> 's \<Rightarrow> string option \<times> 's" where
  "strict_scan sc loc t [] st = st"
| "strict_scan sc loc t (e # es) (bm, bs) =
     (if bs < sc e \<and> t \<le> sc e then strict_scan sc loc t es (Some (loc e), sc e)
      else strict_scan sc loc t es (bm, bs))"

lemma main_best_loop_by_rat:
  "main_best_loop_by main_total_score join fc t listing st = main_best_loop join fc t listing st"
proof (induction listing arbitrary: st)
  case Nil
  then show ?case by simp
next
  case (Cons f rest)
  obtain bm bs where st: "st = (bm, bs)" by (cases st) auto
  show ?case unfolding st by (simp add: Let_def Cons.IH)
qed

lemma upgraded_best_loop_by_rat:
  "upgraded_best_loop_by upgraded_total fc t idx st = upgraded_best_loop fc t idx st"
proof (induction idx arbitrary: st)
  case Nil
  then show ?case by simp
next
  case (Cons e rest)
  obtain bm bs where st: "st = (bm, bs)" by (cases st) auto
  obtain f p where e: "e = (f, p)" by (cases e) auto
  show ?case unfolding st e by (simp add: Let_def Cons.IH)
qed

lemma main_find_best_video_match_by_rat:
  "main_find_best_video_match_by main_total_score join folder_name listing threshold =
   main_find_best_video_match join folder_name listing threshold"
  unfolding main_find_best_video_match_by_def main_find_best_video_match_def
  by (rule main_best_loop_by_rat)

lemma upgraded_find_best_video_match_by_rat:
  "upgraded_find_best_video_match_by upgraded_total folder_name video_index threshold =
   upgraded_find_best_video_match folder_name video_index threshold"
  unfolding upgraded_find_best_video_match_by_def upgraded_find_best_video_match_def
  by (rule upgraded_best_loop_by_rat)

lemma main_best_loop_by_scan:
  "main_best_loop_by total_of join fc t listing st =
   strict_scan (\<lambda>f. total_of fc (main_extract_core_name f)) join t (filter is_video listing) st"
proof (induction listing arbitrary: st)
  case Nil
  then show ?case by simp
next
  case (Cons f rest)
  obtain bm bs where st: "st = (bm, bs)" by (cases st) auto
  show ?case unfolding st by (simp add: Let_def Cons.IH)
qed

lemma upgraded_best_loop_by_scan:
  "upgraded_best_loop_by total_of fc t idx st =
   strict_scan (\<lambda>e. total_of fc (upgraded_extract_core_name (fst e))) snd t idx st"
proof (induction idx arbitrary: st)
  case Nil
  then show ?case by simp
next
  case (Cons e rest)
  obtain bm bs where st: "st = (bm, bs)" by (cases st) auto
  obtain f p where e: "e = (f, p)" by (cases e) auto
  show ?case unfolding st e by (simp add: Let_def Cons.IH)
qed

lemma strict_scan_unchanged:
  "\<forall>e \<in> set es. \<not> (bs < sc e \<and> t \<le> sc e) \<Longrightarrow> strict_scan sc loc t es (bm, bs) = (bm, bs)"
proof (induction es)
  case Nil
  then show ?case by simp
next
  case (Cons e es)
  then have "\<not> (bs < sc e \<and> t \<le> sc e)" "\<forall>e \<in> set es. \<not> (bs < sc e \<and> t \<le> sc e)" by simp_all
  then have "strict_scan sc loc t (e # es) (bm, bs) = strict_scan sc loc t es (bm, bs)" by auto
  then show ?case using Cons.IH \<open>\<forall>e \<in> set es. \<not> (bs < sc e \<and> t \<le> sc e)\<close> by simp
qed

lemma strict_scan_step_take:
  "bs < sc e \<Longrightarrow> t \<le> sc e \<Longrightarrow>
   strict_scan sc loc t (e # es) (bm, bs) = strict_scan sc loc t es (Some (loc e), sc e)"
  by simp

lemma strict_scan_step_skip:
  "\<not> (bs < sc e \<and> t \<le> sc e) \<Longrightarrow>
   strict_scan sc loc t (e # es) (bm, bs) = strict_scan sc loc t es (bm, bs)"
  by auto

text \<open>
  A match that the scan returns is the one it started with, or the locator of a
  candidate, with the score of that candidate, which is above the initial best score
  and reaches the threshold.
\<close>

lemma strict_scan_some:
  "strict_scan sc loc t es (bm, bs) = (Some p, s) \<Longrightarrow>
   (bm = Some p \<and> bs = s) \<or> (\<exists>e \<in> set es. loc e = p \<and> sc e = s \<and> bs < s \<and> t \<le> s)"
proof (induction es arbitrary: bm bs)
  case Nil
  then show ?case by simp
next
  case (Cons e es)
  show ?case
  proof (cases "bs < sc e \<and> t \<le> sc e")
    case True
    then have "strict_scan sc loc t es (Some (loc e), sc e) = (Some p, s)"
      using Cons.prems by simp
    then have "(Some (loc e) = Some p \<and> sc e = s) \<or> (\<exists>x \<in> set es. loc x = p \<and> sc x = s \<and> sc e < s \<and> t \<le> s)"
      by (rule Cons.IH)
    then show ?thesis
    proof
      assume "Some (loc e) = Some p \<and> sc e = s"
      then have "loc e = p \<and> sc e = s \<and> bs < s \<and> t \<le> s" using True by auto
      then show ?thesis by auto
    next
      assume "\<exists>x \<in> set es. loc x = p \<and> sc x = s \<and> sc e < s \<and> t \<le> s"
      then obtain x where x: "x \<in> set es" "loc x = p" "sc x = s" "sc e < s" "t \<le> s" by blast
      have "bs < s" using True x(4) by (meson less_trans)
      then show ?thesis using x by auto
    qed
  next
    case False
    then have "strict_scan sc loc t (e # es) (bm, bs) = strict_scan sc loc t es (bm, bs)"
      by (rule strict_scan_step_skip)
    then have "strict_scan sc loc t es (bm, bs) = (Some p, s)"
      using Cons.prems by simp
    then have "(bm = Some p \<and> bs = s) \<or> (\<exists>x \<in> set es. loc x = p \<and> sc x = s \<and> bs < s \<and> t \<le> s)"
      by (rule Cons.IH)
    then show ?thesis by auto
  qed
qed

section \<open>The strict strategy keeps the first of tied candidates (claim C9)\<close>

text \<open>
  \<open>first_max_at sc es i\<close>: the entry at index \<open>i\<close> of \<open>es\<close> has the greatest score, and
  every entry before it scores strictly less; it is the first of the entries that
  attain the maximum.
\<close>

definition first_max_at :: "('a \<Rightarrow> 's::linorder) \<Rightarrow> 'a list \<Rightarrow> nat \<Rightarrow> bool" where
  "first_max_at sc es i =
     (i < length es \<and> (\<forall>j < length es. sc (es ! j) \<le> sc (es ! i)) \<and> (\<forall>j < i. sc (es ! j) < sc (es ! i)))"

lemma first_max_at_Cons_0:
  "first_max_at sc (e # es) 0 \<longleftrightarrow> (\<forall>x \<in> set es. sc x \<le> sc e)"
proof
  assume a: "first_max_at sc (e # es) 0"
  then have all: "\<And>j. j < length (e # es) \<Longrightarrow> sc ((e # es) ! j) \<le> sc ((e # es) ! 0)"
    unfolding first_max_at_def by blast
  show "\<forall>x \<in> set es. sc x \<le> sc e"
  proof
    fix x assume "x \<in> set es"
    then obtain j where j: "j < length es" "es ! j = x" by (auto simp: in_set_conv_nth)
    have "sc ((e # es) ! Suc j) \<le> sc ((e # es) ! 0)" using all[of "Suc j"] j by simp
    then show "sc x \<le> sc e" using j by simp
  qed
next
  assume a: "\<forall>x \<in> set es. sc x \<le> sc e"
  have "sc ((e # es) ! j) \<le> sc e" if "j < length (e # es)" for j
  proof (cases j)
    case 0
    then show ?thesis by simp
  next
    case (Suc j')
    then have "es ! j' \<in> set es" using that by simp
    then show ?thesis using a Suc by simp
  qed
  then show "first_max_at sc (e # es) 0"
    unfolding first_max_at_def by simp
qed

lemma first_max_at_Cons_Suc:
  "first_max_at sc (e # es) (Suc i) \<longleftrightarrow> (first_max_at sc es i \<and> sc e < sc (es ! i))"
proof
  assume a: "first_max_at sc (e # es) (Suc i)"
  then have len: "Suc i < length (e # es)"
    and all: "\<And>j. j < length (e # es) \<Longrightarrow> sc ((e # es) ! j) \<le> sc ((e # es) ! Suc i)"
    and bef: "\<And>j. j < Suc i \<Longrightarrow> sc ((e # es) ! j) < sc ((e # es) ! Suc i)"
    unfolding first_max_at_def by blast+
  have 1: "i < length es" using len by simp
  have 2: "sc (es ! j) \<le> sc (es ! i)" if "j < length es" for j
    using all[of "Suc j"] that by simp
  have 3: "sc (es ! j) < sc (es ! i)" if "j < i" for j
    using bef[of "Suc j"] that by simp
  have 4: "sc e < sc (es ! i)"
    using bef[of 0] by simp
  show "first_max_at sc es i \<and> sc e < sc (es ! i)"
    unfolding first_max_at_def using 1 2 3 4 by blast
next
  assume a: "first_max_at sc es i \<and> sc e < sc (es ! i)"
  then have len: "i < length es"
    and all: "\<And>j. j < length es \<Longrightarrow> sc (es ! j) \<le> sc (es ! i)"
    and bef: "\<And>j. j < i \<Longrightarrow> sc (es ! j) < sc (es ! i)"
    and lt: "sc e < sc (es ! i)"
    unfolding first_max_at_def by blast+
  have 2: "sc ((e # es) ! j) \<le> sc ((e # es) ! Suc i)" if "j < length (e # es)" for j
  proof (cases j)
    case 0
    then show ?thesis using lt by simp
  next
    case (Suc j')
    then show ?thesis using all[of j'] that by simp
  qed
  have 3: "sc ((e # es) ! j) < sc ((e # es) ! Suc i)" if "j < Suc i" for j
  proof (cases j)
    case 0
    then show ?thesis using lt by simp
  next
    case (Suc j')
    then show ?thesis using bef[of j'] that by simp
  qed
  show "first_max_at sc (e # es) (Suc i)"
    unfolding first_max_at_def using len 2 3 by simp
qed

lemma strict_scan_first_max:
  "first_max_at sc es i \<Longrightarrow> t \<le> sc (es ! i) \<Longrightarrow> bs < sc (es ! i) \<Longrightarrow>
   strict_scan sc loc t es (bm, bs) = (Some (loc (es ! i)), sc (es ! i))"
proof (induction es arbitrary: i bm bs)
  case Nil
  then show ?case by (simp add: first_max_at_def)
next
  case (Cons e es)
  show ?case
  proof (cases i)
    case 0
    have le: "\<forall>x \<in> set es. sc x \<le> sc e"
      using Cons.prems(1) unfolding 0 by (simp only: first_max_at_Cons_0)
    have "\<forall>x \<in> set es. \<not> (sc e < sc x \<and> t \<le> sc x)" using le by (simp add: not_less)
    then have keep: "strict_scan sc loc t es (Some (loc e), sc e) = (Some (loc e), sc e)"
      by (rule strict_scan_unchanged)
    have "t \<le> sc e" "bs < sc e" using Cons.prems(2,3) unfolding 0 by simp_all
    then have "strict_scan sc loc t (e # es) (bm, bs) = (Some (loc e), sc e)"
      using keep by (simp only: strict_scan_step_take)
    then show ?thesis unfolding 0 by simp
  next
    case (Suc i')
    have fm: "first_max_at sc es i'" and lt: "sc e < sc (es ! i')"
      using Cons.prems(1) unfolding Suc by (simp_all only: first_max_at_Cons_Suc)
    have t': "t \<le> sc (es ! i')" and b': "bs < sc (es ! i')"
      using Cons.prems(2,3) unfolding Suc by simp_all
    have "strict_scan sc loc t (e # es) (bm, bs) = (Some (loc (es ! i')), sc (es ! i'))"
    proof (cases "bs < sc e \<and> t \<le> sc e")
      case True
      then have "strict_scan sc loc t (e # es) (bm, bs) = strict_scan sc loc t es (Some (loc e), sc e)"
        by (simp only: strict_scan_step_take)
      then show ?thesis using Cons.IH[OF fm t' lt] by (simp only:)
    next
      case False
      then have "strict_scan sc loc t (e # es) (bm, bs) = strict_scan sc loc t es (bm, bs)"
        by (rule strict_scan_step_skip)
      then show ?thesis using Cons.IH[OF fm t' b'] by (simp only:)
    qed
    then show ?thesis unfolding Suc by simp
  qed
qed

lemma first_max_at_exists:
  "es \<noteq> [] \<Longrightarrow> \<exists>i. first_max_at sc es i"
proof (induction es)
  case Nil
  then show ?case by simp
next
  case (Cons e es)
  show ?case
  proof (cases "\<forall>x \<in> set es. sc x \<le> sc e")
    case True
    then have "first_max_at sc (e # es) 0" by (simp only: first_max_at_Cons_0)
    then show ?thesis by (rule exI)
  next
    case False
    then obtain x where x: "x \<in> set es" "sc e < sc x" by (auto simp: not_le)
    then have "es \<noteq> []" by auto
    then obtain i where i: "first_max_at sc es i" using Cons.IH by blast
    obtain j where j: "j < length es" "es ! j = x" using x(1) by (auto simp: in_set_conv_nth)
    have "sc (es ! j) \<le> sc (es ! i)" using i j(1) unfolding first_max_at_def by blast
    then have "sc e < sc (es ! i)" using x(2) j(2) by simp
    then have "first_max_at sc (e # es) (Suc i)" using i by (simp only: first_max_at_Cons_Suc)
    then show ?thesis by (rule exI)
  qed
qed


text \<open>
  Claim C9, as stated: when several candidates attain the same maximal combined score
  at or above the threshold, the strict strategy returns the one enumerated first. It
  fails when that maximal score is 0: the best score starts at 0 and an update needs a
  strictly greater score, so at threshold 0 two candidates that both score 0 tie at the
  maximum, which is at the threshold, and none is returned. (Every signal of these
  pairs is 0, and so is the float the source computes from them.)
\<close>

theorem strict_tie_at_zero_returns_none:
  "upgraded_total (upgraded_extract_core_name ''abc.gifs'') (upgraded_extract_core_name ''xyz.mp4'') = 0 \<and>
   upgraded_total (upgraded_extract_core_name ''abc.gifs'') (upgraded_extract_core_name ''wvu.mp4'') = 0 \<and>
   upgraded_find_best_video_match ''abc.gifs'' [(''xyz.mp4'', ''d/xyz.mp4''), (''wvu.mp4'', ''d/wvu.mp4'')] 0 = (None, 0) \<and>
   main_total_score (main_extract_core_name ''abc.gifs'') (main_extract_core_name ''xyz.mp4'') = 0 \<and>
   main_total_score (main_extract_core_name ''abc.gifs'') (main_extract_core_name ''wvu.mp4'') = 0 \<and>
   main_find_best_video_match (\<lambda>f. ''d/'' @ f) ''abc.gifs'' [''xyz.mp4'', ''wvu.mp4''] 0 = (None, 0)"
  by code_simp

text \<open>
  Claim C9, amended: in the strict strategy of both programs, whatever values the
  scoring computes for the candidates, when the greatest of the computed scores is
  positive and at or above the threshold, the candidate returned is the first, in the
  iteration order of the candidate collection, of those whose computed score is that
  greatest one, and it is returned with that score: a later candidate whose computed
  score is equal never replaces it. (In \<open>main.py\<close> the candidates are the entries of
  the listing that pass the video-extension filter. The scores compared are the ones
  the program computes, \<open>total_of\<close> and \<open>total_score_of\<close> below; two candidates tie when these
  are equal.)
\<close>

theorem strict_first_of_tied_maxima:
  "(first_max_at (\<lambda>e. total_of (upgraded_extract_core_name folder_name) (upgraded_extract_core_name (fst e))) video_index i \<and>
    threshold \<le> total_of (upgraded_extract_core_name folder_name) (upgraded_extract_core_name (fst (video_index ! i))) \<and>
    0 < total_of (upgraded_extract_core_name folder_name) (upgraded_extract_core_name (fst (video_index ! i)))
    \<longrightarrow> upgraded_find_best_video_match_by total_of folder_name video_index threshold =
          (Some (snd (video_index ! i)),
           total_of (upgraded_extract_core_name folder_name) (upgraded_extract_core_name (fst (video_index ! i))))) \<and>
   (first_max_at (\<lambda>f. total_score_of (main_extract_core_name folder_name) (main_extract_core_name f)) (filter is_video listing) k \<and>
    threshold \<le> total_score_of (main_extract_core_name folder_name) (main_extract_core_name (filter is_video listing ! k)) \<and>
    0 < total_score_of (main_extract_core_name folder_name) (main_extract_core_name (filter is_video listing ! k))
    \<longrightarrow> main_find_best_video_match_by total_score_of join folder_name listing threshold =
          (Some (join (filter is_video listing ! k)),
           total_score_of (main_extract_core_name folder_name) (main_extract_core_name (filter is_video listing ! k))))"
proof (intro conjI impI)
  assume a: "first_max_at (\<lambda>e. total_of (upgraded_extract_core_name folder_name) (upgraded_extract_core_name (fst e))) video_index i \<and>
    threshold \<le> total_of (upgraded_extract_core_name folder_name) (upgraded_extract_core_name (fst (video_index ! i))) \<and>
    0 < total_of (upgraded_extract_core_name folder_name) (upgraded_extract_core_name (fst (video_index ! i)))"
  show "upgraded_find_best_video_match_by total_of folder_name video_index threshold =
          (Some (snd (video_index ! i)),
           total_of (upgraded_extract_core_name folder_name) (upgraded_extract_core_name (fst (video_index ! i))))"
    unfolding upgraded_find_best_video_match_by_def upgraded_best_loop_by_scan
    using strict_scan_first_max[of "\<lambda>e. total_of (upgraded_extract_core_name folder_name) (upgraded_extract_core_name (fst e))"
        video_index i threshold 0 snd None] a by blast
next
  assume a: "first_max_at (\<lambda>f. total_score_of (main_extract_core_name folder_name) (main_extract_core_name f)) (filter is_video listing) k \<and>
    threshold \<le> total_score_of (main_extract_core_name folder_name) (main_extract_core_name (filter is_video listing ! k)) \<and>
    0 < total_score_of (main_extract_core_name folder_name) (main_extract_core_name (filter is_video listing ! k))"
  show "main_find_best_video_match_by total_score_of join folder_name listing threshold =
          (Some (join (filter is_video listing ! k)),
           total_score_of (main_extract_core_name folder_name) (main_extract_core_name (filter is_video listing ! k)))"
    unfolding main_find_best_video_match_by_def main_best_loop_by_scan
    using strict_scan_first_max[of "\<lambda>f. total_score_of (main_extract_core_name folder_name) (main_extract_core_name f)"
        "filter is_video listing" k threshold 0 join None] a by blast
qed

text \<open>
  An instance, at the rational scores: \<open>Show.mp4\<close> and \<open>show.MP4\<close> have the same core
  string, so they tie at the maximum however the score is computed, and the first of
  the two is returned.
\<close>

theorem strict_first_of_tied_maxima_witness:
  "upgraded_extract_core_name ''Show.mp4'' = upgraded_extract_core_name ''show.MP4'' \<and>
   first_max_at (\<lambda>e. upgraded_total (upgraded_extract_core_name ''Show.gifs'') (upgraded_extract_core_name (fst e)))
     [(''Other.mp4'', ''d/Other.mp4''), (''Show.mp4'', ''d/Show.mp4''), (''show.MP4'', ''d/show.MP4'')] 1 \<and>
   fst (upgraded_find_best_video_match_by upgraded_total ''Show.gifs''
     [(''Other.mp4'', ''d/Other.mp4''), (''Show.mp4'', ''d/Show.mp4''), (''show.MP4'', ''d/show.MP4'')] (6 / 10))
     = Some ''d/Show.mp4'' \<and>
   main_extract_core_name ''Show.mp4'' = main_extract_core_name ''show.MP4'' \<and>
   first_max_at (\<lambda>f. main_total_score (main_extract_core_name ''Show.gifs'') (main_extract_core_name f))
     (filter is_video [''Other.mp4'', ''notes.txt'', ''Show.mp4'', ''show.MP4'']) 1 \<and>
   fst (main_find_best_video_match_by main_total_score (\<lambda>f. ''d/'' @ f) ''Show.gifs''
     [''Other.mp4'', ''notes.txt'', ''Show.mp4'', ''show.MP4''] (6 / 10))
     = Some ''d/Show.mp4''"
proof -
  let ?su = "\<lambda>e. upgraded_total (upgraded_extract_core_name ''Show.gifs'') (upgraded_extract_core_name (fst e))"
  let ?idx = "[(''Other.mp4'', ''d/Other.mp4''), (''Show.mp4'', ''d/Show.mp4''), (''show.MP4'', ''d/show.MP4'')]"
  let ?sm = "\<lambda>f. main_total_score (main_extract_core_name ''Show.gifs'') (main_extract_core_name f)"
  let ?listing = "[''Other.mp4'', ''notes.txt'', ''Show.mp4'', ''show.MP4'']"
  have cu: "upgraded_extract_core_name ''Show.mp4'' = upgraded_extract_core_name ''show.MP4''" by code_simp
  have cm: "main_extract_core_name ''Show.mp4'' = main_extract_core_name ''show.MP4''" by code_simp
  have u0: "?su (''Other.mp4'', ''d/Other.mp4'') = 1 / 14" by code_simp
  have u1: "?su (''Show.mp4'', ''d/Show.mp4'') = 421 / 650" by code_simp
  have u2: "?su (''show.MP4'', ''d/show.MP4'') = 421 / 650" by code_simp
  have fu: "first_max_at ?su ?idx (Suc 0)"
    unfolding first_max_at_Cons_Suc first_max_at_Cons_0 using u0 u1 u2 by simp
  have vs: "filter is_video ?listing = [''Other.mp4'', ''Show.mp4'', ''show.MP4'']" by code_simp
  have m0: "?sm ''Other.mp4'' = 1 / 9" by code_simp
  have m1: "?sm ''Show.mp4'' = 47 / 50" by code_simp
  have m2: "?sm ''show.MP4'' = 47 / 50" by code_simp
  have fm: "first_max_at ?sm (filter is_video ?listing) (Suc 0)"
    unfolding vs first_max_at_Cons_Suc first_max_at_Cons_0 using m0 m1 m2 by simp
  have ru: "fst (upgraded_find_best_video_match_by upgraded_total ''Show.gifs'' ?idx (6 / 10)) = Some ''d/Show.mp4''"
    using strict_first_of_tied_maxima[where total_of = upgraded_total and folder_name = "''Show.gifs''"
        and video_index = ?idx and i = "Suc 0" and threshold = "6 / 10", THEN conjunct1] fu u1 by simp
  have rm: "fst (main_find_best_video_match_by main_total_score (\<lambda>f. ''d/'' @ f) ''Show.gifs'' ?listing (6 / 10)) = Some ''d/Show.mp4''"
    using strict_first_of_tied_maxima[where total_score_of = main_total_score and folder_name = "''Show.gifs''"
        and listing = ?listing and k = "Suc 0" and threshold = "6 / 10" and join = "\<lambda>f. ''d/'' @ f", THEN conjunct2]
      fm m1 vs by simp
  show ?thesis using cu cm fu fm ru rm by simp
qed

section \<open>Names with an empty core string (claim C1)\<close>

lemma word_set_empty: "word_set [] = {}"
  by (simp add: word_set_def)

lemma word_overlap_empty: "a = [] \<or> b = [] \<Longrightarrow> word_overlap a b = 0"
  by (auto simp: word_overlap_def word_set_empty)

lemma upgraded_total_empty: "a = [] \<or> b = [] \<Longrightarrow> upgraded_total a b = 0"
  by (auto simp: upgraded_total_def upgraded_similarity_score_def upgraded_contains_score_def word_overlap_empty)

text \<open>
  Claim C1, as stated: a raw name whose core string is empty yields no match, under the
  strict and under the relaxed strategy. The relaxed strategy does not call
  \<open>extract_core_name\<close>: it cleans the names without removing the junk tokens. In
  \<open>main.py\<close> the folder \<open>1080p HD.gifs\<close> has the empty core and the relaxed strategy
  matches it with \<open>1080p HD.mp4\<close> at score 1; in \<open>upgraded.py\<close> the candidate
  \<open>movie.mp4\<close> has the empty core and the selection returns it for the folder
  \<open>movie.gifs\<close>, at the relaxed score 1.
\<close>

theorem empty_core_matched_by_relaxed:
  "main_extract_core_name ''1080p HD.gifs'' = [] \<and>
   main_find_videos_by_content_similarity (\<lambda>f. ''d/'' @ f) ''1080p HD.gifs'' [''1080p HD.mp4'']
     = (Some ''d/1080p HD.mp4'', 1) \<and>
   upgraded_extract_core_name ''movie.mp4'' = [] \<and>
   upgraded_find_best_video_match ''movie.gifs'' [(''movie.mp4'', ''d/movie.mp4'')] (65 / 100) = (None, 0) \<and>
   upgraded_select ''movie.gifs'' [(''movie.mp4'', ''d/movie.mp4'')] (65 / 100) = (Some ''d/movie.mp4'', 1)"
  by code_simp

text \<open>
  Claim C1, amended: in the strict strategy of \<open>upgraded.py\<close>, when the core string of
  the source or of the candidate is empty, every signal (sequence similarity,
  containment, word overlap) and the combined score are 0; and a match that the strict
  strategy returns is the path of a candidate whose core string is not empty, for a
  source whose core string is not empty, with the score of that pair, which is positive
  and reaches the threshold. So a candidate whose name normalizes to the empty string
  is never the strict match, whatever the threshold. The second part needs of the
  score only that it is 0 when a core string is empty, as the first part shows of
  \<open>upgraded_total\<close> and as the guards of the source make the float, whose three terms
  are then 0. (The relaxed strategy compares the names cleaned without the normalizer,
  so a name whose core string is empty can be matched by it.)
\<close>

theorem upgraded_strict_match_has_core:
  "(folder_core = [] \<or> video_core = [] \<longrightarrow>
      upgraded_similarity_score folder_core video_core = 0 \<and>
      upgraded_contains_score folder_core video_core = 0 \<and>
      word_overlap folder_core video_core = 0 \<and>
      upgraded_total folder_core video_core = 0) \<and>
   ((\<forall>fc vc. fc = [] \<or> vc = [] \<longrightarrow> total_of fc vc = 0) \<and>
    upgraded_find_best_video_match_by total_of folder_name video_index threshold = (Some path, score)
    \<longrightarrow> (\<exists>filename. (filename, path) \<in> set video_index \<and>
           upgraded_extract_core_name filename \<noteq> [] \<and>
           upgraded_extract_core_name folder_name \<noteq> [] \<and>
           score = total_of (upgraded_extract_core_name folder_name) (upgraded_extract_core_name filename) \<and>
           0 < score \<and> threshold \<le> score))"
proof (intro conjI impI)
  assume e: "folder_core = [] \<or> video_core = []"
  show "upgraded_similarity_score folder_core video_core = 0"
    using e by (auto simp: upgraded_similarity_score_def)
  show "upgraded_contains_score folder_core video_core = 0"
    using e by (auto simp: upgraded_contains_score_def)
  show "word_overlap folder_core video_core = 0" using e by (rule word_overlap_empty)
  show "upgraded_total folder_core video_core = 0" using e by (rule upgraded_total_empty)
next
  assume a: "(\<forall>fc vc. fc = [] \<or> vc = [] \<longrightarrow> total_of fc vc = 0) \<and>
    upgraded_find_best_video_match_by total_of folder_name video_index threshold = (Some path, score)"
  then have z: "\<And>fc vc. fc = [] \<or> vc = [] \<Longrightarrow> total_of fc vc = 0" by blast
  have "strict_scan (\<lambda>e. total_of (upgraded_extract_core_name folder_name) (upgraded_extract_core_name (fst e)))
          snd threshold video_index (None, 0) = (Some path, score)"
    using a unfolding upgraded_find_best_video_match_by_def upgraded_best_loop_by_scan by blast
  then have "(None = Some path \<and> 0 = score) \<or>
     (\<exists>e \<in> set video_index. snd e = path \<and>
        total_of (upgraded_extract_core_name folder_name) (upgraded_extract_core_name (fst e)) = score \<and>
        0 < score \<and> threshold \<le> score)"
    by (rule strict_scan_some)
  then obtain e where e: "e \<in> set video_index" "snd e = path"
      "total_of (upgraded_extract_core_name folder_name) (upgraded_extract_core_name (fst e)) = score"
      "0 < score" "threshold \<le> score"
    by auto
  have ne1: "upgraded_extract_core_name (fst e) \<noteq> []"
  proof
    assume "upgraded_extract_core_name (fst e) = []"
    then have "score = 0" using z[of "upgraded_extract_core_name (fst e)" "upgraded_extract_core_name folder_name"]
        z[of "upgraded_extract_core_name folder_name" "upgraded_extract_core_name (fst e)"] e(3) by simp
    then show False using e(4) by simp
  qed
  have ne2: "upgraded_extract_core_name folder_name \<noteq> []"
  proof
    assume "upgraded_extract_core_name folder_name = []"
    then have "score = 0" using z[of "upgraded_extract_core_name folder_name" "upgraded_extract_core_name (fst e)"] e(3) by simp
    then show False using e(4) by simp
  qed
  have mem: "(fst e, path) \<in> set video_index" using e(1,2) by (metis prod.collapse)
  show "\<exists>filename. (filename, path) \<in> set video_index \<and>
           upgraded_extract_core_name filename \<noteq> [] \<and>
           upgraded_extract_core_name folder_name \<noteq> [] \<and>
           score = total_of (upgraded_extract_core_name folder_name) (upgraded_extract_core_name filename) \<and>
           0 < score \<and> threshold \<le> score"
    using mem ne1 ne2 e(3,4,5) by blast
qed

text \<open>
  An instance, at the rational scores: for the source \<open>Show.gifs\<close>, the candidate
  \<open>movie.mp4\<close> has the empty core string and scores 0, and the match returned is
  \<open>Show.mp4\<close>, whose core string is \<open>show\<close>.
\<close>

theorem upgraded_strict_match_has_core_witness:
  "upgraded_extract_core_name ''movie.mp4'' = [] \<and>
   upgraded_total (upgraded_extract_core_name ''Show.gifs'') [] = 0 \<and>
   upgraded_find_best_video_match_by upgraded_total ''Show.gifs''
     [(''movie.mp4'', ''d/movie.mp4''), (''Show.mp4'', ''d/Show.mp4'')] (6 / 10) = (Some ''d/Show.mp4'', 421 / 650) \<and>
   (\<exists>filename. (filename, ''d/Show.mp4'') \<in> set [(''movie.mp4'', ''d/movie.mp4''), (''Show.mp4'', ''d/Show.mp4'')] \<and>
      upgraded_extract_core_name filename \<noteq> [] \<and>
      upgraded_extract_core_name ''Show.gifs'' \<noteq> [] \<and>
      (421 / 650 :: rat) = upgraded_total (upgraded_extract_core_name ''Show.gifs'') (upgraded_extract_core_name filename))"
proof -
  let ?idx = "[(''movie.mp4'', ''d/movie.mp4''), (''Show.mp4'', ''d/Show.mp4'')]"
  have c: "upgraded_extract_core_name ''movie.mp4'' = []" by code_simp
  have r: "upgraded_find_best_video_match_by upgraded_total ''Show.gifs'' ?idx (6 / 10) = (Some ''d/Show.mp4'', 421 / 650)"
    by code_simp
  have z: "\<forall>fc vc. fc = [] \<or> vc = [] \<longrightarrow> upgraded_total fc vc = 0"
    using upgraded_total_empty by blast
  have t: "upgraded_total (upgraded_extract_core_name ''Show.gifs'') [] = 0"
    using upgraded_strict_match_has_core[where folder_core = "upgraded_extract_core_name ''Show.gifs''" and video_core = "[]",
        THEN conjunct1] by simp
  have x: "\<exists>filename. (filename, ''d/Show.mp4'') \<in> set ?idx \<and>
      upgraded_extract_core_name filename \<noteq> [] \<and>
      upgraded_extract_core_name ''Show.gifs'' \<noteq> [] \<and>
      (421 / 650 :: rat) = upgraded_total (upgraded_extract_core_name ''Show.gifs'') (upgraded_extract_core_name filename) \<and>
      (0 :: rat) < 421 / 650 \<and> (6 / 10 :: rat) \<le> 421 / 650"
    using upgraded_strict_match_has_core[where total_of = upgraded_total and folder_name = "''Show.gifs''"
        and video_index = ?idx and threshold = "6 / 10" and path = "''d/Show.mp4''" and score = "421 / 650",
        THEN conjunct2] z r by blast
  then have x': "\<exists>filename. (filename, ''d/Show.mp4'') \<in> set ?idx \<and>
      upgraded_extract_core_name filename \<noteq> [] \<and>
      upgraded_extract_core_name ''Show.gifs'' \<noteq> [] \<and>
      (421 / 650 :: rat) = upgraded_total (upgraded_extract_core_name ''Show.gifs'') (upgraded_extract_core_name filename)"
    by blast
  show ?thesis using c t r x' by (intro conjI)
qed

section \<open>Stripping the extension (claim C5)\<close>

text \<open>
  Lower-casing changes no character into one below \<open>a\<close>, so it neither adds nor removes
  a dot, a bracket or a parenthesis.
\<close>

lemma lower_char_below_a:
  assumes "lower_char c = x" "(of_char x :: nat) < 97"
  shows "c = x"
proof (rule ccontr)
  assume n: "c \<noteq> x"
  then have ch: "lower_char c = char_of (of_char c + 32 :: nat)"
    and rng: "(65 \<le> (of_char c :: nat) \<and> (of_char c :: nat) \<le> 90) \<or> (192 \<le> (of_char c :: nat) \<and> (of_char c :: nat) \<le> 214) \<or> (216 \<le> (of_char c :: nat) \<and> (of_char c :: nat) \<le> 222)"
    using assms(1) by (auto simp: lower_char_def Let_def split: if_splits)
  have "(of_char (lower_char c) :: nat) = (of_char c + 32) mod 256" unfolding ch by simp
  then have "(of_char x :: nat) = (of_char c + 32) mod 256" using assms(1) by simp
  then show False using rng assms(2) by auto
qed

lemma lower_keeps_absent:
  assumes "(of_char x :: nat) < 97" "x \<notin> set s"
  shows "x \<notin> set (lower s)"
proof
  assume "x \<in> set (lower s)"
  then obtain c where c: "c \<in> set s" "lower_char c = x" by (auto simp: lower_def)
  have "c = x" using c(2) assms(1) by (rule lower_char_below_a)
  then show False using c(1) assms(2) by simp
qed

lemma lower_keeps_present:
  assumes "lower_char x = x" "x \<in> set s"
  shows "x \<in> set (lower s)"
  using assms by (force simp: lower_def image_iff)

text \<open>
  A character \<open>x\<close> that no extension holds, that lower-casing leaves alone and that is
  neither a dot nor a newline: no extension match starts before an \<open>x\<close>.
\<close>

lemma sub_extension_before:
  assumes "\<forall>e \<in> set exts. x \<notin> set e" "lower_char x = x" "x \<noteq> CHR ''.''" "x \<noteq> CHR 0x0A"
  shows "sub_extension exts (pre @ x # post) = pre @ x # sub_extension exts post"
proof (induction pre)
  case Nil
  then show ?case using assms(3) by simp
next
  case (Cons c pre)
  have in1: "x \<in> set (lower (pre @ x # post))"
    by (rule lower_keeps_present[OF assms(2)]) simp
  then have n1: "lower (pre @ x # post) \<notin> set exts" using assms(1) by blast
  have n2: "\<not> (last (pre @ x # post) = CHR 0x0A \<and> lower (butlast (pre @ x # post)) \<in> set exts)"
  proof (cases "post = []")
    case True
    then show ?thesis using assms(4) by simp
  next
    case False
    then have "butlast (pre @ x # post) = pre @ x # butlast post" by (simp add: butlast_append)
    then have "x \<in> set (lower (butlast (pre @ x # post)))"
      using lower_keeps_present[OF assms(2), of "pre @ x # butlast post"] by simp
    then show ?thesis using assms(1) by blast
  qed
  show ?case using n1 n2 Cons.IH by simp
qed

lemma sub_extension_no_dot: "CHR ''.'' \<notin> set s \<Longrightarrow> sub_extension exts s = s"
  by (induction s) auto

lemma sub_extension_strip:
  assumes "lower e \<in> set exts" "\<forall>x \<in> set exts. CHR ''.'' \<notin> set x"
  shows "sub_extension exts (s @ CHR ''.'' # e) = s"
proof (induction s)
  case Nil
  then show ?case using assms(1) by simp
next
  case (Cons c s)
  have "CHR ''.'' \<in> set (lower (s @ CHR ''.'' # e))"
    by (rule lower_keeps_present) (simp_all add: lower_char_def)
  then have n1: "lower (s @ CHR ''.'' # e) \<notin> set exts" using assms(2) by blast
  have n2: "\<not> (last (s @ CHR ''.'' # e) = CHR 0x0A \<and> lower (butlast (s @ CHR ''.'' # e)) \<in> set exts)"
  proof (cases "e = []")
    case True
    then show ?thesis by simp
  next
    case False
    then have "butlast (s @ CHR ''.'' # e) = s @ CHR ''.'' # butlast e" by (simp add: butlast_append)
    then have "CHR ''.'' \<in> set (lower (butlast (s @ CHR ''.'' # e)))"
      using lower_keeps_present[of "CHR ''.''" "s @ CHR ''.'' # butlast e"] by (simp add: lower_char_def)
    then show ?thesis using assms(2) by blast
  qed
  show ?case using n1 n2 Cons.IH by simp
qed

lemma sub_extension_keep:
  assumes "lower e \<notin> set exts" "CHR ''.'' \<notin> set e" "e \<noteq> []" "last e \<noteq> CHR 0x0A"
    "\<forall>x \<in> set exts. CHR ''.'' \<notin> set x"
  shows "sub_extension exts (s @ CHR ''.'' # e) = s @ CHR ''.'' # e"
proof (induction s)
  case Nil
  then show ?case using assms(1,2,3,4) by (simp add: sub_extension_no_dot)
next
  case (Cons c s)
  have "CHR ''.'' \<in> set (lower (s @ CHR ''.'' # e))"
    by (rule lower_keeps_present) (simp_all add: lower_char_def)
  then have n1: "lower (s @ CHR ''.'' # e) \<notin> set exts" using assms(5) by blast
  have "last (s @ CHR ''.'' # e) = last e" using assms(3) by simp
  then have n2: "last (s @ CHR ''.'' # e) \<noteq> CHR 0x0A" using assms(4) by simp
  show ?case using n1 n2 Cons.IH by simp
qed

lemma main_extensions_no_dot: "\<forall>x \<in> set main_extensions. CHR ''.'' \<notin> set x"
  by (simp add: main_extensions_def)

lemma upgraded_extensions_no_dot: "\<forall>x \<in> set upgraded_extensions. CHR ''.'' \<notin> set x"
  by (simp add: upgraded_extensions_def)

text \<open>
  Claim C5, as stated: normalization strips one trailing extension of the container
  set and, for a source name, the marker suffix \<open>.gifs\<close>, so that the core of
  \<open>s + ".gifs"\<close> has no residual \<open>gifs\<close> token. In \<open>upgraded.py\<close> the list of
  extensions holds \<open>gif\<close> and not \<open>gifs\<close>: the suffix is not stripped, and its letters
  stay as a token of the core.
\<close>

theorem upgraded_keeps_gifs_token:
  "upgraded_extract_core_name ''funny cats.gifs'' = ''funny cats gifs''"
  by code_simp

text \<open>
  Claim C5, amended: normalization strips one trailing extension, case-insensitively,
  from the container set (mp4, avi, mkv, mov, wmv, flv, webm, m4v, 3gp, mpeg, mpg, ts,
  mts, m2ts, vob, ogv, divx, xvid) extended with \<open>gifs\<close> in \<open>main.py\<close> and with \<open>gif\<close>
  in \<open>upgraded.py\<close>, for every name (source or candidate): the core of \<open>s + "." + e\<close>
  is what the later steps make of the stem \<open>s\<close> alone, so a second extension in \<open>s\<close> is
  kept. In \<open>main.py\<close> the core of \<open>s + ".gifs"\<close> is therefore computed from \<open>s\<close> alone;
  \<open>upgraded.py\<close> leaves the suffix \<open>.gifs\<close> in place.
\<close>

theorem extension_stripped_once:
  "main_extensions = map tl video_extensions @ [''gifs''] \<and>
   upgraded_extensions = map tl video_extensions @ [''gif''] \<and>
   (lower e \<in> set main_extensions \<longrightarrow>
      sub_extension main_extensions (s @ CHR ''.'' # e) = s \<and>
      main_extract_core_name (s @ CHR ''.'' # e) =
        clean_core (sub_terms main_common_terms [] None (sub_brackets is_open_square is_close_square [] s))) \<and>
   (lower e \<in> set upgraded_extensions \<longrightarrow>
      sub_extension upgraded_extensions (s @ CHR ''.'' # e) = s \<and>
      upgraded_extract_core_name (s @ CHR ''.'' # e) =
        clean_core (sub_terms upgraded_common_terms '' '' None (sub_brackets is_open_any is_close_any '' '' s))) \<and>
   main_extract_core_name (s @ ''.gifs'') =
     clean_core (sub_terms main_common_terms [] None (sub_brackets is_open_square is_close_square [] s)) \<and>
   sub_extension upgraded_extensions (s @ ''.gifs'') = s @ ''.gifs''"
proof (intro conjI impI)
  show "main_extensions = map tl video_extensions @ [''gifs'']"
    by (simp add: main_extensions_def video_extensions_def)
  show "upgraded_extensions = map tl video_extensions @ [''gif'']"
    by (simp add: upgraded_extensions_def video_extensions_def)
next
  assume e: "lower e \<in> set main_extensions"
  show m: "sub_extension main_extensions (s @ CHR ''.'' # e) = s"
    using e main_extensions_no_dot by (rule sub_extension_strip)
  show "main_extract_core_name (s @ CHR ''.'' # e) =
        clean_core (sub_terms main_common_terms [] None (sub_brackets is_open_square is_close_square [] s))"
    unfolding main_extract_core_name_def m ..
next
  assume e: "lower e \<in> set upgraded_extensions"
  show u: "sub_extension upgraded_extensions (s @ CHR ''.'' # e) = s"
    using e upgraded_extensions_no_dot by (rule sub_extension_strip)
  show "upgraded_extract_core_name (s @ CHR ''.'' # e) =
        clean_core (sub_terms upgraded_common_terms '' '' None (sub_brackets is_open_any is_close_any '' '' s))"
    unfolding upgraded_extract_core_name_def u ..
next
  have g: "lower ''gifs'' \<in> set main_extensions" by code_simp
  have "sub_extension main_extensions (s @ CHR ''.'' # ''gifs'') = s"
    using g main_extensions_no_dot by (rule sub_extension_strip)
  then show "main_extract_core_name (s @ ''.gifs'') =
     clean_core (sub_terms main_common_terms [] None (sub_brackets is_open_square is_close_square [] s))"
    unfolding main_extract_core_name_def by simp
next
  have g: "lower ''gifs'' \<notin> set upgraded_extensions" by code_simp
  have "sub_extension upgraded_extensions (s @ CHR ''.'' # ''gifs'') = s @ CHR ''.'' # ''gifs''"
    using g upgraded_extensions_no_dot by (intro sub_extension_keep) simp_all
  then show "sub_extension upgraded_extensions (s @ ''.gifs'') = s @ ''.gifs''" by simp
qed

text \<open>An instance: of the two extensions of \<open>Show.avi.MP4\<close> only the last one goes.\<close>

theorem extension_stripped_once_witness:
  "lower ''MP4'' \<in> set main_extensions \<and> lower ''MP4'' \<in> set upgraded_extensions \<and>
   sub_extension main_extensions ''Show.avi.MP4'' = ''Show.avi'' \<and>
   main_extract_core_name ''Show.avi.MP4'' = ''show avi'' \<and>
   upgraded_extract_core_name ''Show.avi.MP4'' = ''show avi'' \<and>
   main_extract_core_name ''Show.avi.gifs'' = ''show avi'' \<and>
   sub_extension upgraded_extensions ''Show.avi.gifs'' = ''Show.avi.gifs''"
proof -
  have h: "lower ''MP4'' \<in> set main_extensions" "lower ''MP4'' \<in> set upgraded_extensions" by code_simp+
  have c1: "clean_core (sub_terms main_common_terms [] None (sub_brackets is_open_square is_close_square [] ''Show.avi'')) = ''show avi''"
    by code_simp
  have c2: "clean_core (sub_terms upgraded_common_terms '' '' None (sub_brackets is_open_any is_close_any '' '' ''Show.avi'')) = ''show avi''"
    by code_simp
  show ?thesis
    using extension_stripped_once[of "''MP4''" "''Show.avi''"] h c1 c2 by simp
qed

section \<open>Bracketed groups (claim C8)\<close>

lemma close_at_found:
  assumes "\<forall>x \<in> set mid. \<not> cl x \<and> x \<noteq> CHR 0x0A" "cl c"
  shows "close_at cl (mid @ c # post) = Some (Suc (length mid))"
  using assms by (induction mid) auto

lemma sub_brackets_group:
  assumes "\<forall>x \<in> set pre. \<not> opn x" "opn b" "\<forall>x \<in> set mid. \<not> cl x \<and> x \<noteq> CHR 0x0A" "cl c"
  shows "sub_brackets opn cl repl (pre @ b # mid @ c # post) = pre @ repl @ sub_brackets opn cl repl post"
  using assms(1)
proof (induction pre)
  case Nil
  have "close_at cl (mid @ c # post) = Some (Suc (length mid))"
    using assms(3,4) by (rule close_at_found)
  then show ?case using assms(2) by simp
next
  case (Cons p pre)
  then show ?case by simp
qed

lemma main_extensions_chars: "\<forall>e \<in> set main_extensions. CHR '']'' \<notin> set e"
  by (simp add: main_extensions_def)

lemma upgraded_extensions_chars:
  "\<forall>e \<in> set upgraded_extensions. CHR '']'' \<notin> set e" "\<forall>e \<in> set upgraded_extensions. CHR '')'' \<notin> set e"
  by (simp_all add: upgraded_extensions_def)

text \<open>
  Claim C8, as stated: normalization removes every bracketed and every parenthesized
  group with its contents. \<open>main.py\<close> removes square-bracket groups only, so the text
  inside parentheses stays in the core; and a group ends at the first closing character,
  so in \<open>upgraded.py\<close> the tail of a group that holds a nested group stays too.
\<close>

theorem bracket_contents_can_remain:
  "main_extract_core_name ''Heat (1995).mp4'' = ''heat 1995'' \<and>
   upgraded_extract_core_name ''Heat (a (b) c).mp4'' = ''heat c''"
  by code_simp

text \<open>
  Claim C8, amended: a group that starts at the first opening character of the name and
  holds no closing character and no newline before its own closing character is removed
  with its contents, so that the core does not depend on the contents. The opening and
  closing characters are \<open>[\<close> and \<open>]\<close> in \<open>main.py\<close>, where the group is replaced with
  nothing; in \<open>upgraded.py\<close> they are \<open>[\<close> or \<open>(\<close> and \<open>]\<close> or \<open>)\<close>, in any pairing, and the
  group is replaced with a space. The scan then goes on in the same way after the group.
\<close>

theorem bracket_group_removed:
  "((\<forall>x \<in> set pre. x \<noteq> CHR ''['') \<and> (\<forall>x \<in> set mid. x \<noteq> CHR '']'' \<and> x \<noteq> CHR 0x0A) \<longrightarrow>
      main_extract_core_name (pre @ CHR ''['' # mid @ CHR '']'' # post) =
        clean_core (sub_terms main_common_terms [] None
          (pre @ sub_brackets is_open_square is_close_square [] (sub_extension main_extensions post)))) \<and>
   ((\<forall>x \<in> set pre. x \<noteq> CHR ''['' \<and> x \<noteq> CHR ''('') \<and> (b = CHR ''['' \<or> b = CHR ''('') \<and>
    (\<forall>x \<in> set mid. x \<noteq> CHR '']'' \<and> x \<noteq> CHR '')'' \<and> x \<noteq> CHR 0x0A) \<and> (c = CHR '']'' \<or> c = CHR '')'') \<longrightarrow>
      upgraded_extract_core_name (pre @ b # mid @ c # post) =
        clean_core (sub_terms upgraded_common_terms '' '' None
          (pre @ CHR '' '' # sub_brackets is_open_any is_close_any '' '' (sub_extension upgraded_extensions post))))"
proof (intro conjI impI)
  assume a: "(\<forall>x \<in> set pre. x \<noteq> CHR ''['') \<and> (\<forall>x \<in> set mid. x \<noteq> CHR '']'' \<and> x \<noteq> CHR 0x0A)"
  have e: "sub_extension main_extensions ((pre @ CHR ''['' # mid) @ CHR '']'' # post)
           = (pre @ CHR ''['' # mid) @ CHR '']'' # sub_extension main_extensions post"
    by (rule sub_extension_before[OF main_extensions_chars]) (simp_all add: lower_char_def)
  have b: "sub_brackets is_open_square is_close_square [] (pre @ CHR ''['' # mid @ CHR '']'' # sub_extension main_extensions post)
           = pre @ [] @ sub_brackets is_open_square is_close_square [] (sub_extension main_extensions post)"
    by (rule sub_brackets_group) (use a in \<open>simp_all add: is_open_square_def is_close_square_def\<close>)
  show "main_extract_core_name (pre @ CHR ''['' # mid @ CHR '']'' # post) =
        clean_core (sub_terms main_common_terms [] None
          (pre @ sub_brackets is_open_square is_close_square [] (sub_extension main_extensions post)))"
    unfolding main_extract_core_name_def using e b by simp
next
  assume a: "(\<forall>x \<in> set pre. x \<noteq> CHR ''['' \<and> x \<noteq> CHR ''('') \<and> (b = CHR ''['' \<or> b = CHR ''('') \<and>
    (\<forall>x \<in> set mid. x \<noteq> CHR '']'' \<and> x \<noteq> CHR '')'' \<and> x \<noteq> CHR 0x0A) \<and> (c = CHR '']'' \<or> c = CHR '')'')"
  have e: "sub_extension upgraded_extensions ((pre @ b # mid) @ c # post)
           = (pre @ b # mid) @ c # sub_extension upgraded_extensions post"
  proof (cases "c = CHR '']''")
    case True
    show ?thesis unfolding True
      by (rule sub_extension_before[OF upgraded_extensions_chars(1)]) (simp_all add: lower_char_def)
  next
    case False
    then have c: "c = CHR '')''" using a by simp
    show ?thesis unfolding c
      by (rule sub_extension_before[OF upgraded_extensions_chars(2)]) (simp_all add: lower_char_def)
  qed
  have g: "sub_brackets is_open_any is_close_any '' '' (pre @ b # mid @ c # sub_extension upgraded_extensions post)
           = pre @ '' '' @ sub_brackets is_open_any is_close_any '' '' (sub_extension upgraded_extensions post)"
    by (rule sub_brackets_group) (use a in \<open>auto simp add: is_open_any_def is_close_any_def\<close>)
  show "upgraded_extract_core_name (pre @ b # mid @ c # post) =
        clean_core (sub_terms upgraded_common_terms '' '' None
          (pre @ CHR '' '' # sub_brackets is_open_any is_close_any '' '' (sub_extension upgraded_extensions post)))"
    unfolding upgraded_extract_core_name_def using e g by simp
qed

text \<open>An instance, with a mixed pair of delimiters for \<open>upgraded.py\<close>.\<close>

theorem bracket_group_removed_witness:
  "main_extract_core_name ''Heat [1995 x] y.mp4'' = ''heat y'' \<and>
   upgraded_extract_core_name ''Heat (1995 x] y.mp4'' = ''heat y''"
proof -
  have h1: "(\<forall>x \<in> set ''Heat ''. x \<noteq> CHR ''['') \<and> (\<forall>x \<in> set ''1995 x''. x \<noteq> CHR '']'' \<and> x \<noteq> CHR 0x0A)"
    by simp
  have h2: "(\<forall>x \<in> set ''Heat ''. x \<noteq> CHR ''['' \<and> x \<noteq> CHR ''('') \<and> (CHR ''('' = CHR ''['' \<or> CHR ''('' = CHR ''('') \<and>
    (\<forall>x \<in> set ''1995 x''. x \<noteq> CHR '']'' \<and> x \<noteq> CHR '')'' \<and> x \<noteq> CHR 0x0A) \<and> (CHR '']'' = CHR '']'' \<or> CHR '']'' = CHR '')'')"
    by simp
  have c1: "clean_core (sub_terms main_common_terms [] None
          (''Heat '' @ sub_brackets is_open_square is_close_square [] (sub_extension main_extensions '' y.mp4''))) = ''heat y''"
    by code_simp
  have c2: "clean_core (sub_terms upgraded_common_terms '' '' None
          (''Heat '' @ CHR '' '' # sub_brackets is_open_any is_close_any '' '' (sub_extension upgraded_extensions '' y.mp4''))) = ''heat y''"
    by code_simp
  show ?thesis
    using bracket_group_removed[of "''Heat ''" "''1995 x''" "'' y.mp4''" "CHR ''(''" "CHR '']''"] h1 h2 c1 c2
    by simp
qed

section \<open>Characters of the core string (claim C2)\<close>











lemma dropWhile_hd: "dropWhile P s \<noteq> [] \<Longrightarrow> \<not> P (hd (dropWhile P s))"
  by (metis hd_dropWhile)






section \<open>Sequence similarity of equal and of empty strings (claim C7)\<close>

text \<open>
  When \<open>find_longest_match\<close> compares a string with itself, every length it stores
  is bounded by the number of consecutive characters that are not popular and end at
  the position: \<open>nonpop_run a j\<close> counts them before position \<open>j\<close>. \<open>prev_len p j\<close> is
  \<open>j2len.get(j-1, 0)\<close>.
\<close>

definition prev_len :: "(nat \<Rightarrow> nat) \<Rightarrow> nat \<Rightarrow> nat" where
  "prev_len p j = (if j = 0 then 0 else p (j - 1))"

fun nonpop_run :: "string \<Rightarrow> nat \<Rightarrow> nat" where
  "nonpop_run a 0 = 0"
| "nonpop_run a (Suc j) = (if popular a (a ! j) then 0 else Suc (nonpop_run a j))"

text \<open>
  \<open>diag_row a i p\<close>: the row \<open>p\<close> of lengths that the outer loop holds when it reaches
  index \<open>i\<close> is bounded by the runs, and is the run on the diagonal.
\<close>

definition diag_row :: "string \<Rightarrow> nat \<Rightarrow> (nat \<Rightarrow> nat) \<Rightarrow> bool" where
  "diag_row a i p = ((\<forall>j. prev_len p j \<le> nonpop_run a j) \<and> (\<forall>j. prev_len p j \<le> nonpop_run a i) \<and>
     prev_len p i = nonpop_run a i)"

lemma inner_loop_step:
  "j < bhi \<Longrightarrow>
   inner_loop i 0 bhi p (j # js) (nJ, bi, bj, bk) =
     (if bk < Suc (prev_len p j)
      then inner_loop i 0 bhi p js (nJ(j := Suc (prev_len p j)), i - prev_len p j, j - prev_len p j, Suc (prev_len p j))
      else inner_loop i 0 bhi p js (nJ(j := Suc (prev_len p j)), bi, bj, bk))"
  by (simp add: prev_len_def Let_def)

lemma inner_loop_fst:
  "\<forall>j \<in> set js. j < bhi \<Longrightarrow>
   fst (inner_loop i 0 bhi p js (nJ, best)) x = (if x \<in> set js then Suc (prev_len p x) else nJ x)"
proof (induction js arbitrary: nJ best)
  case Nil
  then show ?case by simp
next
  case (Cons j js)
  obtain bi bj bk where b: "best = (bi, bj, bk)" by (cases best) auto
  have j: "j < bhi" using Cons.prems by simp
  have rest: "\<forall>j \<in> set js. j < bhi" using Cons.prems by simp
  show ?case
  proof (cases "bk < Suc (prev_len p j)")
    case True
    then have "inner_loop i 0 bhi p (j # js) (nJ, best) =
        inner_loop i 0 bhi p js (nJ(j := Suc (prev_len p j)), i - prev_len p j, j - prev_len p j, Suc (prev_len p j))"
      unfolding b by (simp only: inner_loop_step[OF j] if_True)
    then show ?thesis using Cons.IH[OF rest] by simp
  next
    case False
    then have "inner_loop i 0 bhi p (j # js) (nJ, best) =
        inner_loop i 0 bhi p js (nJ(j := Suc (prev_len p j)), bi, bj, bk)"
      unfolding b by (simp only: inner_loop_step[OF j] if_False)
    then show ?thesis using Cons.IH[OF rest] by simp
  qed
qed

lemma inner_loop_diag:
  fixes R :: "nat \<Rightarrow> nat"
  assumes "\<forall>j \<in> set js. j < bhi" "sorted_wrt (<) js"
    and "\<forall>j \<in> set js. Suc (prev_len p j) \<le> R j \<and> Suc (prev_len p j) \<le> R i"
    and "i \<in> set js \<longrightarrow> Suc (prev_len p i) = R i"
    and "bi = bj" "\<forall>i' < i. R i' \<le> bk" "i \<in> set js \<or> R i \<le> bk"
  shows "case snd (inner_loop i 0 bhi p js (nJ, bi, bj, bk)) of
           (bi', bj', bk') \<Rightarrow> bi' = bj' \<and> (\<forall>i' < i. R i' \<le> bk') \<and> R i \<le> bk'"
  using assms
proof (induction js arbitrary: nJ bi bj bk)
  case Nil
  then show ?case by simp
next
  case (Cons j js)
  define k where "k = Suc (prev_len p j)"
  have j: "j < bhi" using Cons.prems(1) by simp
  have rest1: "\<forall>j \<in> set js. j < bhi" using Cons.prems(1) by simp
  have rest2: "sorted_wrt (<) js" using Cons.prems(2) by simp
  have gt: "\<forall>x \<in> set js. j < x" using Cons.prems(2) by simp
  have rest3: "\<forall>j \<in> set js. Suc (prev_len p j) \<le> R j \<and> Suc (prev_len p j) \<le> R i"
    using Cons.prems(3) by simp
  have kj: "k \<le> R j" and ki: "k \<le> R i" using Cons.prems(3) unfolding k_def by simp_all
  show ?case
  proof (cases "bk < k")
    case True
    have ji: "j = i"
    proof (rule ccontr)
      assume ne: "j \<noteq> i"
      show False
      proof (cases "j < i")
        case True
        then have "R j \<le> bk" using Cons.prems(6) by blast
        then show False using kj \<open>bk < k\<close> by simp
      next
        case False
        then have "i < j" using ne by simp
        then have "i \<notin> set (j # js)" using gt by auto
        then have "R i \<le> bk" using Cons.prems(7) by blast
        then show False using ki \<open>bk < k\<close> by simp
      qed
    qed
    have inotin: "i \<notin> set js" using gt ji by auto
    have rest4: "i \<in> set js \<longrightarrow> Suc (prev_len p i) = R i" using inotin by simp
    have keq: "k = R i" using Cons.prems(4) ji unfolding k_def by simp
    have step: "inner_loop i 0 bhi p (j # js) (nJ, bi, bj, bk) =
                inner_loop i 0 bhi p js (nJ(j := k), i - prev_len p j, j - prev_len p j, k)"
      using True unfolding k_def by (simp only: inner_loop_step[OF j] if_True)
    have a5: "i - prev_len p j = j - prev_len p j" using ji by simp
    have a6: "\<forall>i' < i. R i' \<le> k" using Cons.prems(6) True by auto
    have a7: "i \<in> set js \<or> R i \<le> k" using keq by simp
    show ?thesis unfolding step
      by (rule Cons.IH[OF rest1 rest2 rest3 rest4 a5 a6 a7])
  next
    case False
    have step: "inner_loop i 0 bhi p (j # js) (nJ, bi, bj, bk) =
                inner_loop i 0 bhi p js (nJ(j := k), bi, bj, bk)"
      using False unfolding k_def by (simp only: inner_loop_step[OF j] if_False)
    have a7: "i \<in> set js \<or> R i \<le> bk"
    proof (cases "j = i")
      case True
      then have "k = R i" using Cons.prems(4) unfolding k_def by simp
      then show ?thesis using False by simp
    next
      case ne: False
      then show ?thesis using Cons.prems(7) by auto
    qed
    have rest4: "i \<in> set js \<longrightarrow> Suc (prev_len p i) = R i" using Cons.prems(4) by simp
    show ?thesis unfolding step
      by (rule Cons.IH[OF rest1 rest2 rest3 rest4 Cons.prems(5) Cons.prems(6) a7])
  qed
qed

lemma b2j_set: "set (b2j a c) = (if popular a c then {} else {j. j < length a \<and> a ! j = c})"
  by (auto simp: b2j_def)

lemma b2j_sorted: "sorted_wrt (<) (b2j a c)"
  unfolding b2j_def by (simp add: sorted_wrt_filter)

lemma diag_row_0: "diag_row a 0 (\<lambda>_. 0)"
  by (simp add: diag_row_def prev_len_def)

lemma diag_row_step:
  assumes inv: "diag_row a i p" and i: "i < length a"
  shows "diag_row a (Suc i) (fst (inner_loop i 0 (length a) p (b2j a (a ! i)) (\<lambda>_. 0, best)))"
proof -
  let ?js = "b2j a (a ! i)"
  let ?q = "fst (inner_loop i 0 (length a) p ?js (\<lambda>_. 0, best))"
  have lt: "\<forall>j \<in> set ?js. j < length a" by (simp add: b2j_set)
  have q: "?q x = (if x \<in> set ?js then Suc (prev_len p x) else 0)" for x
    using inner_loop_fst[OF lt] by simp
  have A: "\<And>j. prev_len p j \<le> nonpop_run a j" and B: "\<And>j. prev_len p j \<le> nonpop_run a i"
    and C: "prev_len p i = nonpop_run a i"
    using inv unfolding diag_row_def by blast+
  have mem: "x \<in> set ?js \<Longrightarrow> \<not> popular a (a ! i) \<and> a ! x = a ! i" for x
    by (simp add: b2j_set split: if_splits)
  have q1: "?q x \<le> nonpop_run a (Suc x)" for x
  proof (cases "x \<in> set ?js")
    case True
    then have "\<not> popular a (a ! x)" using mem by simp
    then show ?thesis using True q A by simp
  next
    case False
    then show ?thesis using q by simp
  qed
  have q2: "?q x \<le> nonpop_run a (Suc i)" for x
  proof (cases "x \<in> set ?js")
    case True
    then have "\<not> popular a (a ! i)" using mem by simp
    then show ?thesis using True q B by simp
  next
    case False
    then show ?thesis using q by simp
  qed
  have q3: "?q i = nonpop_run a (Suc i)"
  proof (cases "popular a (a ! i)")
    case True
    then have "i \<notin> set ?js" by (simp add: b2j_set)
    then show ?thesis using q True by simp
  next
    case False
    then have "i \<in> set ?js" using i by (simp add: b2j_set)
    then show ?thesis using q False C by simp
  qed
  have p1: "prev_len ?q j \<le> nonpop_run a j" for j
  proof (cases j)
    case 0
    then show ?thesis by (simp add: prev_len_def)
  next
    case (Suc x)
    then show ?thesis using q1[of x] by (simp add: prev_len_def)
  qed
  have p2: "prev_len ?q j \<le> nonpop_run a (Suc i)" for j
  proof (cases j)
    case 0
    then show ?thesis by (simp add: prev_len_def)
  next
    case (Suc x)
    then show ?thesis using q2[of x] by (simp add: prev_len_def)
  qed
  have p3: "prev_len ?q (Suc i) = nonpop_run a (Suc i)" using q3 by (simp add: prev_len_def)
  show ?thesis unfolding diag_row_def using p1 p2 p3 by blast
qed

lemma b2j_mem: "x \<in> set (b2j a c) \<Longrightarrow> \<not> popular a c \<and> a ! x = c \<and> x < length a"
  by (simp add: b2j_set split: if_splits)

lemma b2j_self: "i < length a \<Longrightarrow> \<not> popular a (a ! i) \<Longrightarrow> i \<in> set (b2j a (a ! i))"
  by (simp add: b2j_set)

lemma diag_h3:
  assumes inv: "diag_row a i p"
  shows "\<forall>j \<in> set (b2j a (a ! i)). Suc (prev_len p j) \<le> nonpop_run a (Suc j) \<and> Suc (prev_len p j) \<le> nonpop_run a (Suc i)"
proof
  fix j assume j: "j \<in> set (b2j a (a ! i))"
  have A: "prev_len p j \<le> nonpop_run a j" and B: "prev_len p j \<le> nonpop_run a i"
    using inv unfolding diag_row_def by blast+
  have np: "\<not> popular a (a ! i)" and eq: "a ! j = a ! i" using b2j_mem[OF j] by simp_all
  have 1: "nonpop_run a (Suc j) = Suc (nonpop_run a j)" using np eq by simp
  have 2: "nonpop_run a (Suc i) = Suc (nonpop_run a i)" using np by simp
  show "Suc (prev_len p j) \<le> nonpop_run a (Suc j) \<and> Suc (prev_len p j) \<le> nonpop_run a (Suc i)"
    unfolding 1 2 using A B by simp
qed

lemma diag_h4:
  assumes inv: "diag_row a i p"
  shows "i \<in> set (b2j a (a ! i)) \<longrightarrow> Suc (prev_len p i) = nonpop_run a (Suc i)"
proof
  assume m: "i \<in> set (b2j a (a ! i))"
  have C: "prev_len p i = nonpop_run a i" using inv unfolding diag_row_def by blast
  have np: "\<not> popular a (a ! i)" using b2j_mem[OF m] by simp
  have 2: "nonpop_run a (Suc i) = Suc (nonpop_run a i)" using np by simp
  show "Suc (prev_len p i) = nonpop_run a (Suc i)" unfolding 2 using C by simp
qed

lemma diag_h7:
  assumes i: "i < length a"
  shows "i \<in> set (b2j a (a ! i)) \<or> nonpop_run a (Suc i) \<le> bk"
proof (cases "popular a (a ! i)")
  case True
  then have "nonpop_run a (Suc i) = 0" by simp
  then show ?thesis by simp
next
  case False
  then have "i \<in> set (b2j a (a ! i))" using i by (rule b2j_self[rotated])
  then show ?thesis by (rule disjI1)
qed

lemma b2j_lt: "\<forall>j \<in> set (b2j a c). j < length a"
  using b2j_mem by blast

lemma diag_best_step:
  assumes inv: "diag_row a i p" and i: "i < length a"
    and d: "bi = bj" and m: "\<forall>i' < i. nonpop_run a (Suc i') \<le> bk"
    and r: "snd (inner_loop i 0 (length a) p (b2j a (a ! i)) (nJ, bi, bj, bk)) = (x, y, z)"
  shows "x = y \<and> (\<forall>i' < Suc i. nonpop_run a (Suc i') \<le> z)"
proof -
  have "case snd (inner_loop i 0 (length a) p (b2j a (a ! i)) (nJ, bi, bj, bk)) of
           (bi', bj', bk') \<Rightarrow> bi' = bj' \<and> (\<forall>i' < i. nonpop_run a (Suc i') \<le> bk') \<and> nonpop_run a (Suc i) \<le> bk'"
    using b2j_lt b2j_sorted diag_h3[OF inv] diag_h4[OF inv] d m diag_h7[OF i]
    by (rule inner_loop_diag[where R = "\<lambda>x. nonpop_run a (Suc x)"])
  then have c: "x = y \<and> (\<forall>i' < i. nonpop_run a (Suc i') \<le> z) \<and> nonpop_run a (Suc i) \<le> z"
    unfolding r prod.case .
  have "\<forall>i' < Suc i. nonpop_run a (Suc i') \<le> z"
  proof (intro allI impI)
    fix i' assume "i' < Suc i"
    then have "i' < i \<or> i' = i" by (simp only: less_Suc_eq)
    then show "nonpop_run a (Suc i') \<le> z" using c by blast
  qed
  then show ?thesis using c by blast
qed

lemma outer_loop_diag:
  "diag_row a i p \<Longrightarrow> bi = bj \<Longrightarrow> \<forall>i' < i. nonpop_run a (Suc i') \<le> bk \<Longrightarrow>
   fst (outer_loop a a 0 (length a) [i..<length a] (p, bi, bj, bk))
   = fst (snd (outer_loop a a 0 (length a) [i..<length a] (p, bi, bj, bk)))"
proof (induction "length a - i" arbitrary: i p bi bj bk)
  case 0
  then show ?case by simp
next
  case (Suc d)
  then have lt: "i < length a" by simp
  have up: "[i..<length a] = i # [Suc i..<length a]" using lt by (simp add: upt_conv_Cons)
  obtain q bi' bj' bk' where r: "inner_loop i 0 (length a) p (b2j a (a ! i)) (\<lambda>_. 0, bi, bj, bk) = (q, bi', bj', bk')"
    by (cases "inner_loop i 0 (length a) p (b2j a (a ! i)) (\<lambda>_. 0, bi, bj, bk)") auto
  have q: "diag_row a (Suc i) q"
    using diag_row_step[OF Suc.prems(1) lt, of "(bi, bj, bk)"] r by simp
  have r': "snd (inner_loop i 0 (length a) p (b2j a (a ! i)) (\<lambda>_. 0, bi, bj, bk)) = (bi', bj', bk')"
    unfolding r by simp
  have b: "bi' = bj' \<and> (\<forall>i' < Suc i. nonpop_run a (Suc i') \<le> bk')"
    by (rule diag_best_step[OF Suc.prems(1) lt Suc.prems(2) Suc.prems(3) r'])
  have d: "d = length a - Suc i" using Suc.hyps(2) by simp
  have "fst (outer_loop a a 0 (length a) [Suc i..<length a] (q, bi', bj', bk'))
      = fst (snd (outer_loop a a 0 (length a) [Suc i..<length a] (q, bi', bj', bk')))"
    using Suc.hyps(1)[OF d q] b by blast
  then show ?case unfolding up by (simp add: r)
qed

lemma extend_left_diag: "extend_left a a 0 0 (i, i, k) = (0, 0, k + i)"
proof (induction i arbitrary: k)
  case 0
  then show ?case by (subst extend_left.simps) simp
next
  case (Suc i)
  have "extend_left a a 0 0 (Suc i, Suc i, k) = extend_left a a 0 0 (i, i, Suc k)"
    by (subst extend_left.simps) simp
  then show ?case using Suc.IH[of "Suc k"] by simp
qed

lemma extend_right_diag: "k \<le> n \<Longrightarrow> extend_right a a n n (0, 0, k) = (0, 0, n)"
proof (induction "n - k" arbitrary: k)
  case 0
  then have "k = n" by simp
  then show ?case by (subst extend_right.simps) simp
next
  case (Suc d)
  then have lt: "k < n" by simp
  have "extend_right a a n n (0, 0, k) = extend_right a a n n (0, 0, Suc k)"
    using lt by (subst extend_right.simps) simp
  moreover have "extend_right a a n n (0, 0, Suc k) = (0, 0, n)"
    using Suc.hyps(1)[of "Suc k"] Suc.hyps(2) lt by simp
  ultimately show ?case by simp
qed

lemma find_longest_match_self: "find_longest_match a a 0 (length a) 0 (length a) = (0, 0, length a)"
proof -
  obtain bi bj bk where o: "outer_loop a a 0 (length a) [0..<length a] (\<lambda>_. 0, 0, 0, 0) = (bi, bj, bk)"
    by (cases "outer_loop a a 0 (length a) [0..<length a] (\<lambda>_. 0, 0, 0, 0)") auto
  have "bi = bj" using outer_loop_diag[OF diag_row_0, where a = a and bi = 0 and bj = 0 and bk = 0] o by simp
  have "best_ok 0 (length a) 0 (length a) (0, 0, 0)" by (simp add: best_ok_def)
  then have "best_ok 0 (length a) 0 (length a) (outer_loop a a 0 (length a) [0..<length a] (\<lambda>_. 0, 0, 0, 0))"
    using outer_loop_ok[where blo = 0 and bhi = "length a" and i = 0 and alo = 0 and p = "\<lambda>_. 0"
        and ahi = "length a" and best = "(0, 0, 0)" and a = a and b = a] row_ok_zero by simp
  then have le: "bk + bi \<le> length a" unfolding o by (auto simp: best_ok_def split: if_splits)
  have "find_longest_match a a 0 (length a) 0 (length a) =
        extend_right a a (length a) (length a) (extend_left a a 0 0 (bi, bi, bk))"
    unfolding find_longest_match_def o using \<open>bi = bj\<close> by simp
  also have "\<dots> = extend_right a a (length a) (length a) (0, 0, bk + bi)" by (simp only: extend_left_diag)
  also have "\<dots> = (0, 0, length a)" using le by (rule extend_right_diag)
  finally show ?thesis .
qed

lemma matching_size_self: "matching_size a a 0 (length a) 0 (length a) = length a"
  by (subst matching_size.simps) (simp add: find_longest_match_self)

lemma ratio_self: "a \<noteq> [] \<Longrightarrow> ratio a a = 1"
  by (simp add: ratio_def Let_def matching_size_self)

lemma outer_loop_no_b: "outer_loop a [] blo bhi is (p, best) = best"
  by (induction "is" arbitrary: p) (simp_all add: b2j_def)

lemma matching_size_empty_right: "matching_size a [] 0 (length a) 0 0 = 0"
proof -
  have "find_longest_match a [] 0 (length a) 0 0 = (0, 0, 0)"
    unfolding find_longest_match_def outer_loop_no_b
    by (subst extend_left.simps, simp, subst extend_right.simps, simp)
  then show ?thesis by (subst matching_size.simps) simp
qed

lemma matching_size_empty_left: "matching_size [] b 0 0 0 (length b) = 0"
proof -
  have "find_longest_match [] b 0 0 0 (length b) = (0, 0, 0)"
    unfolding find_longest_match_def
    by (simp, subst extend_left.simps, simp, subst extend_right.simps, simp)
  then show ?thesis by (subst matching_size.simps) simp
qed

lemma ratio_empty: "(a = []) \<noteq> (b = []) \<Longrightarrow> ratio a b = 0"
proof -
  assume "(a = []) \<noteq> (b = [])"
  then consider "a = []" "b \<noteq> []" | "a \<noteq> []" "b = []" by blast
  then show ?thesis
  proof cases
    case 1
    then show ?thesis using matching_size_empty_left[of b] by (simp add: ratio_def Let_def)
  next
    case 2
    then show ?thesis using matching_size_empty_right[of a] by (simp add: ratio_def Let_def)
  qed
qed

text \<open>
  Claim C7, as stated: the sequence similarity is symmetric, is 1 for two equal
  non-empty strings and is 0 when either string is empty, also when both are. The
  ratio of \<open>SequenceMatcher\<close> depends on the order of its arguments: the longest match
  is looked for from the first string, and the earliest one is taken, so \<open>tide\<close>
  against \<open>diet\<close> matches only \<open>t\<close> (the ratio is 2 * 1 / 8) and \<open>diet\<close> against
  \<open>tide\<close> matches \<open>d\<close> and then \<open>e\<close> (2 * 2 / 8). In \<open>main.py\<close> two empty strings have
  the similarity 1.
\<close>

theorem similarity_not_symmetric:
  "main_similarity_score ''tide'' ''diet'' = 1 / 4 \<and> main_similarity_score ''diet'' ''tide'' = 1 / 2 \<and>
   upgraded_similarity_score ''tide'' ''diet'' = 1 / 4 \<and> upgraded_similarity_score ''diet'' ''tide'' = 1 / 2 \<and>
   main_similarity_score [] [] = 1"
  by code_simp

text \<open>
  Claim C7, amended: in both programs the sequence similarity of a non-empty string
  with itself is 1 (also for a long string, whose popular characters
  \<open>SequenceMatcher\<close> leaves out of its index); it is 0 when either string is empty in
  \<open>upgraded.py\<close>, and when exactly one of the two is empty in \<open>main.py\<close>. It is not
  symmetric in general.
\<close>

theorem similarity_of_equal_and_empty:
  "(a \<noteq> [] \<longrightarrow> main_similarity_score a a = 1 \<and> upgraded_similarity_score a a = 1) \<and>
   (a = [] \<or> b = [] \<longrightarrow> upgraded_similarity_score a b = 0) \<and>
   ((a = []) \<noteq> (b = []) \<longrightarrow> main_similarity_score a b = 0)"
proof (intro conjI impI)
  assume "a \<noteq> []"
  then show "main_similarity_score a a = 1" unfolding main_similarity_score_def by (rule ratio_self)
next
  assume ne: "a \<noteq> []"
  then have "ratio a a = 1" by (rule ratio_self)
  then show "upgraded_similarity_score a a = 1" using ne by (simp add: upgraded_similarity_score_def)
next
  assume "a = [] \<or> b = []"
  then show "upgraded_similarity_score a b = 0" by (auto simp: upgraded_similarity_score_def)
next
  assume "(a = []) \<noteq> (b = [])"
  then show "main_similarity_score a b = 0" unfolding main_similarity_score_def by (rule ratio_empty)
qed

text \<open>An instance: the string \<open>show\<close> against itself and against the empty string.\<close>

theorem similarity_of_equal_and_empty_witness:
  "main_similarity_score ''show'' ''show'' = 1 \<and> upgraded_similarity_score ''show'' ''show'' = 1 \<and>
   upgraded_similarity_score ''show'' [] = 0 \<and> main_similarity_score ''show'' [] = 0"
  using similarity_of_equal_and_empty[of "''show''" "[]"] by simp

end
